theory Spec2Isabelle
  imports Main "HOL-Library.Word"
begin

section \<open>Platform and memory model\<close>

text \<open>
  The allocator is modelled for an LP64 platform: \<open>size_t\<close>, \<open>uintptr_t\<close> and
  pointers are 64-bit words, \<open>uint_fast8_t\<close> is an 8-bit word, \<open>alignof(size_t)\<close>
  is 8 and \<open>sizeof(FreeNode_t)\<close> (two 8-byte fields and an empty flexible array
  member) is 16.

  Memory is one store shared by headers and payloads: a function from byte addresses
  to 64-bit words, where the word stored at address \<open>a\<close> stands for the eight bytes
  \<open>a .. a+7\<close>.  The header of a block at address \<open>h\<close> has its \<open>nunits\<close> field at
  \<open>h\<close> and its \<open>nxt\<close> field at \<open>h + 8\<close>.  This is the C program's view of memory
  whenever every header sits at an address that is a multiple of 8, which is what
  \<open>allocator_add\<close> establishes.  The null pointer is the word 0.

  The spinlock is taken and released around every critical section; the model is
  sequential, so the lock field is left out of the state.
\<close>

type_synonym size_t = "64 word"
type_synonym addr = "64 word"
type_synonym memory = "addr \<Rightarrow> 64 word"

definition UNITSZ :: "64 word" where
  "UNITSZ = 16"

definition ALIGNOF_SIZE_T :: "8 word" where
  "ALIGNOF_SIZE_T = 8"

definition SIZE_MAX :: size_t where
  "SIZE_MAX = - 1"

text \<open>
  The state the operations work on: the allocator's free-list pointer \<open>a->p\<close> and
  the memory its headers live in.
\<close>

record allocator =
  a_p :: addr
  mem :: memory

definition ALLOCATOR_INIT :: "memory \<Rightarrow> allocator" where
  "ALLOCATOR_INIT m = \<lparr> a_p = 0, mem = m \<rparr>"

definition nunits :: "memory \<Rightarrow> addr \<Rightarrow> size_t" where
  "nunits m h = m h"

definition nxt :: "memory \<Rightarrow> addr \<Rightarrow> addr" where
  "nxt m h = m (h + 8)"

definition set_nunits :: "memory \<Rightarrow> addr \<Rightarrow> size_t \<Rightarrow> memory" where
  "set_nunits m h v = m(h := v)"

definition set_nxt :: "memory \<Rightarrow> addr \<Rightarrow> addr \<Rightarrow> memory" where
  "set_nxt m h v = m(h + 8 := v)"

text \<open>Arithmetic on a \<open>FreeNode_t *\<close>: \<open>h + k\<close> advances by \<open>k\<close> headers.\<close>

definition ptr_add :: "addr \<Rightarrow> size_t \<Rightarrow> addr" where
  "ptr_add h k = h + k * UNITSZ"

section \<open>The operations\<close>

text \<open>
  \<open>aln_offset\<close>: the operands are converted to \<open>uintptr_t\<close>, the result is
  converted back to \<open>uint_fast8_t\<close>.
\<close>

definition aln_offset :: "64 word \<Rightarrow> 8 word \<Rightarrow> 8 word" where
  "aln_offset base aln =
     (if base mod ucast aln \<noteq> 0 then ucast (ucast aln - base mod ucast aln) else 0)"

text \<open>
  The body of the match branch of the loop in \<open>allocator_alloc\<close>: \<open>cur\<close> has at
  least \<open>n\<close> units.  It ends with \<open>break\<close>, so it yields the final state and the
  returned pointer.
\<close>

definition alloc_match :: "allocator \<Rightarrow> size_t \<Rightarrow> addr \<Rightarrow> addr \<Rightarrow> allocator \<times> addr" where
  "alloc_match s n prv cur =
     (let m = mem s in
      if nunits m cur = n then
        (if nxt m prv \<noteq> nxt m cur
         then (s\<lparr>a_p := prv, mem := set_nxt m prv (nxt m cur)\<rparr>, ptr_add cur 1)
         else (s\<lparr>a_p := 0\<rparr>, ptr_add cur 1))
      else
        (let k = nunits m cur - n;
             m1 = set_nunits m cur k;
             cur' = ptr_add cur k;
             m2 = set_nunits m1 cur' n
         in (s\<lparr>a_p := prv, mem := m2\<rparr>, ptr_add cur' 1)))"

text \<open>
  The \<open>for\<close> loop of \<open>allocator_alloc\<close>.  Nothing bounds the walk when the list is
  not a ring through \<open>a->p\<close>, so the loop is a partial function: \<open>None\<close> is a walk
  that never ends.
\<close>

partial_function (option) alloc_loop ::
  "allocator \<Rightarrow> size_t \<Rightarrow> addr \<Rightarrow> addr \<Rightarrow> (allocator \<times> addr) option" where
  "alloc_loop s n prv cur =
     (if n \<le> nunits (mem s) cur then Some (alloc_match s n prv cur)
      else if cur = a_p s then Some (s, 0)
      else alloc_loop s n cur (nxt (mem s) cur))"

declare alloc_loop.simps [code]

definition allocator_alloc :: "allocator \<Rightarrow> size_t \<Rightarrow> (allocator \<times> addr) option" where
  "allocator_alloc s nbytes =
     (let inc = (ucast (aln_offset nbytes (ucast UNITSZ)) :: size_t) in
      if nbytes = 0 \<or> SIZE_MAX - inc < nbytes then Some (s, 0)
      else if a_p s \<noteq> 0 then
        alloc_loop s ((nbytes + inc) div UNITSZ + 1) (a_p s) (nxt (mem s) (a_p s))
      else Some (s, 0))"

text \<open>The insertion walk of \<open>allocator_free\<close>; it yields the final \<open>cur\<close>.\<close>

partial_function (option) free_walk :: "memory \<Rightarrow> addr \<Rightarrow> addr \<Rightarrow> addr option" where
  "free_walk m p cur =
     (if \<not> (cur < p \<and> p < nxt m cur) then
        (if nxt m cur \<le> cur \<and> (cur < p \<or> p < nxt m cur) then Some cur
         else free_walk m p (nxt m cur))
      else Some cur)"

declare free_walk.simps [code]

text \<open>The two coalescing steps after the walk, statement by statement.\<close>

definition free_link :: "memory \<Rightarrow> addr \<Rightarrow> addr \<Rightarrow> memory" where
  "free_link m p cur =
     (let m2 =
        (if ptr_add p (nunits m p) = nxt m cur then
           (let m1 = set_nunits m p (nunits m p + nunits m (nxt m cur))
            in set_nxt m1 p (nxt m1 (nxt m1 cur)))
         else set_nxt m p (nxt m cur))
      in
        (if ptr_add cur (nunits m2 cur) = p then
           (let m3 = set_nunits m2 cur (nunits m2 cur + nunits m2 p)
            in set_nxt m3 cur (nxt m3 p))
         else set_nxt m2 cur p))"

definition allocator_free :: "allocator \<Rightarrow> addr \<Rightarrow> allocator option" where
  "allocator_free s ptr =
     (if ptr = 0 then Some s
      else
        (let p = ptr - UNITSZ in
         if a_p s \<noteq> 0 then
           (case free_walk (mem s) p (a_p s) of
              None \<Rightarrow> None
            | Some cur \<Rightarrow> Some (s\<lparr>a_p := cur, mem := free_link (mem s) p cur\<rparr>))
         else Some (s\<lparr>a_p := p, mem := set_nxt (mem s) p p\<rparr>)))"

definition allocator_add :: "allocator \<Rightarrow> addr \<Rightarrow> size_t \<Rightarrow> allocator option" where
  "allocator_add s p nbytes =
     (let inc = (ucast (aln_offset p ALIGNOF_SIZE_T) :: size_t);
          n = (nbytes - inc) div UNITSZ
      in
        if inc + UNITSZ < nbytes \<and> n \<noteq> 0 then
          (let new = p + inc
           in allocator_free (s\<lparr>mem := set_nunits (mem s) new n\<rparr>) (ptr_add new 1))
        else Some s)"

definition allocator_allocsz :: "memory \<Rightarrow> addr \<Rightarrow> size_t" where
  "allocator_allocsz m p = (if p \<noteq> 0 then (nunits m (p - UNITSZ) - 1) * UNITSZ else 0)"

text \<open>
  \<open>memcpy(dst, src, n)\<close> on regions that do not overlap: the \<open>n\<close> bytes from \<open>dst\<close>
  on take the contents of the \<open>n\<close> bytes from \<open>src\<close> on, nothing else changes.
\<close>

definition memcpy :: "memory \<Rightarrow> addr \<Rightarrow> addr \<Rightarrow> size_t \<Rightarrow> memory" where
  "memcpy m dst src n = (\<lambda>a. if a - dst < n then m (src + (a - dst)) else m a)"

definition allocator_realloc ::
  "allocator \<Rightarrow> addr \<Rightarrow> size_t \<Rightarrow> (allocator \<times> addr) option" where
  "allocator_realloc s p nbytes =
     (if p = 0 then allocator_alloc s nbytes
      else if nbytes = 0 then
        (case allocator_free s p of None \<Rightarrow> None | Some s' \<Rightarrow> Some (s', 0))
      else if allocator_allocsz (mem s) p < nbytes then
        (case allocator_alloc s nbytes of
           None \<Rightarrow> None
         | Some (s1, res) \<Rightarrow>
             if res \<noteq> 0 then
               (case allocator_free
                       (s1\<lparr>mem := memcpy (mem s1) res p (allocator_allocsz (mem s1) p)\<rparr>) p of
                  None \<Rightarrow> None
                | Some s2 \<Rightarrow> Some (s2, res))
             else Some (s1, res))
      else Some (s, p))"

section \<open>Scenarios\<close>

text \<open>
  A caller-supplied region starting at \<open>b\<close> with \<open>n\<close> bytes: \<open>b\<close> is not null, is
  aligned for \<open>size_t\<close>, and the region ends below the top of the address space.
\<close>

definition region_ok :: "addr \<Rightarrow> nat \<Rightarrow> bool" where
  "region_ok b n = (b \<noteq> 0 \<and> unat b mod 8 = 0 \<and> unat b + n < 2 ^ 64)"

text \<open>
  Calling \<open>alloc(n)\<close> until it returns null; the pointers handed out are collected,
  the latest first.
\<close>

partial_function (option) alloc_until_null ::
  "allocator \<Rightarrow> size_t \<Rightarrow> addr list \<Rightarrow> (allocator \<times> addr list) option" where
  "alloc_until_null s n acc =
     (case allocator_alloc s n of
        None \<Rightarrow> None
      | Some (s', r) \<Rightarrow> if r = 0 then Some (s', acc) else alloc_until_null s' n (r # acc))"

fun free_all :: "allocator \<Rightarrow> addr list \<Rightarrow> allocator option" where
  "free_all s [] = Some s"
| "free_all s (q # qs) =
     (case allocator_free s q of None \<Rightarrow> None | Some s' \<Rightarrow> free_all s' qs)"

text \<open>
  Seed 10 units, exhaust with \<open>alloc(1)\<close>, free everything in reverse order of
  allocation.  The result: the number of successful allocations, the final cursor, its
  \<open>nxt\<close> and its \<open>nunits\<close>.
\<close>

definition seed_exhaust_refill :: "memory \<Rightarrow> addr \<Rightarrow> (nat \<times> addr \<times> addr \<times> size_t) option" where
  "seed_exhaust_refill m base =
     Option.bind (allocator_add (ALLOCATOR_INIT m) base (10 * UNITSZ)) (\<lambda>s0.
     Option.bind (alloc_until_null s0 1 []) (\<lambda>(s1, ps).
     Option.bind (free_all s1 ps) (\<lambda>s2.
       Some (length ps, a_p s2, nxt (mem s2) (a_p s2), nunits (mem s2) (a_p s2)))))"

text \<open>Seed 5 units, allocate \<open>a\<close>, \<open>b\<close>, \<open>c\<close> of one unit each, free \<open>a\<close>, \<open>c\<close>, \<open>b\<close>.\<close>

definition coalesce_both_sides ::
  "memory \<Rightarrow> addr \<Rightarrow> (addr \<times> addr \<times> addr \<times> allocator) option" where
  "coalesce_both_sides m base =
     Option.bind (allocator_add (ALLOCATOR_INIT m) base (5 * UNITSZ)) (\<lambda>s0.
     Option.bind (allocator_alloc s0 UNITSZ) (\<lambda>(s1, a).
     Option.bind (allocator_alloc s1 UNITSZ) (\<lambda>(s2, b).
     Option.bind (allocator_alloc s2 UNITSZ) (\<lambda>(s3, c).
     Option.bind (allocator_free s3 a) (\<lambda>s4.
     Option.bind (allocator_free s4 c) (\<lambda>s5.
     Option.bind (allocator_free s5 b) (\<lambda>s6. Some (a, b, c, s6))))))))"

text \<open>
  Seed 10 units, allocate \<open>a\<close> and \<open>b\<close> of one unit and \<open>c\<close> of five units (which
  takes the rest of the region), then free \<open>a\<close> and \<open>b\<close>: \<open>b\<close> is freed into a
  free list whose only block, \<open>a\<close>, starts where \<open>b\<close> ends.
\<close>

definition free_below_singleton :: "memory \<Rightarrow> addr \<Rightarrow> allocator option" where
  "free_below_singleton m base =
     Option.bind (allocator_add (ALLOCATOR_INIT m) base (10 * UNITSZ)) (\<lambda>s0.
     Option.bind (allocator_alloc s0 UNITSZ) (\<lambda>(s1, a).
     Option.bind (allocator_alloc s1 UNITSZ) (\<lambda>(s2, b).
     Option.bind (allocator_alloc s2 (5 * UNITSZ)) (\<lambda>(s3, c).
     Option.bind (allocator_free s3 a) (\<lambda>s4. allocator_free s4 b)))))"

text \<open>Three allocations of the same size in a row; the three pointers returned.\<close>

definition alloc3 :: "allocator \<Rightarrow> size_t \<Rightarrow> (addr \<times> addr \<times> addr) option" where
  "alloc3 s n =
     Option.bind (allocator_alloc s n) (\<lambda>(s1, a).
     Option.bind (allocator_alloc s1 n) (\<lambda>(s2, b).
     Option.bind (allocator_alloc s2 n) (\<lambda>(s3, c). Some (a, b, c))))"

text \<open>
  The state after seeding the 160 bytes at address 4096 into a fresh allocator over
  zeroed memory and allocating 16 bytes: the free block at 4096 has 8 units left, the
  live allocation has its header at 4224 and its payload at 4240.
\<close>

definition live_example :: allocator where
  "live_example = \<lparr>a_p = 4096, mem = (\<lambda>_. 0)(4096 := 10, 4104 := 4096, 4096 := 8, 4224 := 2)\<rparr>"

section \<open>The free list as a ring of blocks\<close>

text \<open>
  The free list is described by the list \<open>bs\<close> of its block headers in ascending
  address order.  \<open>links m bs z\<close>: each header's \<open>nxt\<close> is the next element of
  \<open>bs\<close>, the last one's is \<open>z\<close>; with \<open>z\<close> the first element this is the ring.
\<close>

fun hd_or :: "'a list \<Rightarrow> 'a \<Rightarrow> 'a" where
  "hd_or [] z = z"
| "hd_or (x # xs) z = x"

fun links :: "memory \<Rightarrow> addr list \<Rightarrow> addr \<Rightarrow> bool" where
  "links m [] z = True"
| "links m (x # xs) z = (nxt m x = hd_or xs z \<and> links m xs z)"

text \<open>The address one past the end of the block whose header is at \<open>h\<close>.\<close>

definition blk_end :: "memory \<Rightarrow> addr \<Rightarrow> nat" where
  "blk_end m h = unat h + 16 * unat (nunits m h)"

text \<open>
  A block: its header is not at null, it is aligned for \<open>size_t\<close>, it has at least
  one unit (the header itself), and it ends below the top of the address space.
\<close>

definition blk_ok :: "memory \<Rightarrow> addr \<Rightarrow> bool" where
  "blk_ok m h = (h \<noteq> 0 \<and> unat h mod 8 = 0 \<and> 1 \<le> unat (nunits m h) \<and> blk_end m h < 2 ^ 64)"

text \<open>
  Ascending addresses with a gap between any two blocks: no two free blocks overlap
  or touch.
\<close>

definition separated :: "memory \<Rightarrow> addr list \<Rightarrow> bool" where
  "separated m bs = sorted_wrt (\<lambda>a b. blk_end m a < unat b) bs"

text \<open>
  The invariant of the free list: it is empty and \<open>a->p\<close> is null, or \<open>a->p\<close> is one
  of the blocks of a ring of well-formed, separated blocks in ascending address order
  (the ring's one descending step is from the last block back to the first).
\<close>

definition freelist_inv :: "allocator \<Rightarrow> addr list \<Rightarrow> bool" where
  "freelist_inv s bs =
     (if bs = [] then a_p s = 0
      else a_p s \<in> set bs \<and> links (mem s) bs (hd_or bs 0) \<and> list_all (blk_ok (mem s)) bs
           \<and> separated (mem s) bs)"

text \<open>
  The unit discipline alone: a ring through \<open>a->p\<close> of well-formed blocks, in the
  order of the ring, with nothing said about their addresses.
\<close>

definition unit_discipline :: "allocator \<Rightarrow> addr list \<Rightarrow> bool" where
  "unit_discipline s ws =
     (if ws = [] then a_p s = 0
      else a_p s \<in> set ws \<and> distinct ws \<and> links (mem s) ws (hd_or ws 0)
           \<and> list_all (blk_ok (mem s)) ws)"

text \<open>The address \<open>a\<close> lies in no block of \<open>bs\<close>.\<close>

definition outside :: "memory \<Rightarrow> addr list \<Rightarrow> addr \<Rightarrow> bool" where
  "outside m bs a = list_all (\<lambda>b. unat a < unat b \<or> blk_end m b \<le> unat a) bs"

text \<open>The block at \<open>h\<close> overlaps no block of \<open>bs\<close>.\<close>

definition apart :: "memory \<Rightarrow> addr list \<Rightarrow> addr \<Rightarrow> bool" where
  "apart m bs h = list_all (\<lambda>b. blk_end m b \<le> unat h \<or> blk_end m h \<le> unat b) bs"

text \<open>
  A pointer that may be passed to \<open>allocator_free\<close>: null, or the payload of a
  well-formed block that overlaps no free block.
\<close>

definition freeable :: "allocator \<Rightarrow> addr list \<Rightarrow> addr \<Rightarrow> bool" where
  "freeable s bs ptr =
     (ptr = 0 \<or> (blk_ok (mem s) (ptr - UNITSZ) \<and> apart (mem s) bs (ptr - UNITSZ)))"

text \<open>The unit count \<open>allocator_alloc\<close> computes for a request, and its size check.\<close>

definition units_needed :: "size_t \<Rightarrow> size_t" where
  "units_needed nbytes =
     (nbytes + ucast (aln_offset nbytes (ucast UNITSZ))) div UNITSZ + 1"

definition size_invalid :: "size_t \<Rightarrow> bool" where
  "size_invalid nbytes =
     (nbytes = 0 \<or> SIZE_MAX - ucast (aln_offset nbytes (ucast UNITSZ)) < nbytes)"

text \<open>
  The order in which the loop of \<open>allocator_alloc\<close> visits the blocks: it starts at
  the successor of the cursor \<open>c\<close> and ends at \<open>c\<close> itself.
\<close>

definition walk_order :: "addr \<Rightarrow> addr list \<Rightarrow> addr list" where
  "walk_order c bs =
     (if c \<in> set bs
      then tl (dropWhile (\<lambda>b. b \<noteq> c) bs) @ takeWhile (\<lambda>b. b \<noteq> c) bs @ [c]
      else [])"

text \<open>
  The header address of the block \<open>allocator_alloc\<close> splits off the tail of \<open>cur\<close>
  when it takes \<open>n\<close> units from it: \<open>cur += (cur->nunits -= nunits)\<close>.
\<close>

definition tail_of :: "memory \<Rightarrow> addr \<Rightarrow> size_t \<Rightarrow> addr" where
  "tail_of m cur n = ptr_add cur (nunits m cur - n)"

text \<open>
  What a successful allocation of \<open>n\<close> units hands out and what it leaves behind:
  the free list \<open>bs'\<close> is well-formed again and made of blocks of the old one, none
  of them larger than before; the block returned has \<open>n\<close> units, was part of an old
  free block and overlaps no block of \<open>bs'\<close>; memory outside the old free blocks is
  untouched.
\<close>

definition alloc_post ::
  "allocator \<Rightarrow> addr list \<Rightarrow> size_t \<Rightarrow> allocator \<Rightarrow> addr \<Rightarrow> addr list \<Rightarrow> bool" where
  "alloc_post s bs n s' r bs' =
     (freelist_inv s' bs'
      \<and> list_all (\<lambda>b. b \<in> set bs \<and> blk_end (mem s') b \<le> blk_end (mem s) b) bs'
      \<and> r \<noteq> 0 \<and> blk_ok (mem s') (r - UNITSZ) \<and> nunits (mem s') (r - UNITSZ) = n
      \<and> list_ex (\<lambda>c. unat c \<le> unat (r - UNITSZ)
                    \<and> blk_end (mem s') (r - UNITSZ) \<le> blk_end (mem s) c) bs
      \<and> apart (mem s') bs' (r - UNITSZ)
      \<and> (\<forall>a. outside (mem s) bs a \<longrightarrow> mem s' a = mem s a))"

text \<open>
  The state after seeding the 160 bytes at address 4096 into a fresh allocator over
  zeroed memory.
\<close>

definition seeded_example :: allocator where
  "seeded_example = \<lparr>a_p = 4096, mem = (\<lambda>_. 0)(4096 := 10, 4104 := 4096)\<rparr>"

section \<open>Walking the ring\<close>

lemma hd_or_append: "hd_or (xs @ ys) z = hd_or xs (hd_or ys z)"
  by (cases xs) auto

lemma links_append: "links m (xs @ ys) z = (links m xs (hd_or ys z) \<and> links m ys z)"
  by (induction xs) (auto simp: hd_or_append)

lemma links_last: "ws \<noteq> [] \<Longrightarrow> links m ws z \<Longrightarrow> nxt m (last ws) = z"
  by (induction ws) (auto split: if_splits)

lemma links_cong: "(\<And>x. x \<in> set xs \<Longrightarrow> nxt m' x = nxt m x) \<Longrightarrow> links m' xs z = links m xs z"
  by (induction xs) auto

lemma alloc_loop_skip:
  "links (mem s) (us @ cur # vs) z \<Longrightarrow> \<forall>u\<in>set us. \<not> n \<le> nunits (mem s) u \<and> u \<noteq> a_p s \<Longrightarrow>
   alloc_loop s n prv (hd_or us cur) = alloc_loop s n (last (prv # us)) cur"
proof (induction us arbitrary: prv)
  case Nil
  then show ?case by simp
next
  case (Cons u us)
  from Cons.prems have "alloc_loop s n prv u = alloc_loop s n u (nxt (mem s) u)"
    by (subst alloc_loop.simps) simp
  moreover from Cons.prems have "nxt (mem s) u = hd_or us cur"
    by (simp add: hd_or_append)
  ultimately show ?case using Cons.IH [of u] Cons.prems by simp
qed

lemma ring_rotate:
  assumes "links m (ys @ c # zs) (hd_or ys c)"
  shows "links m (zs @ ys @ [c]) (nxt m c)" and "hd_or (zs @ ys) c = nxt m c" 
  using assms by (auto simp: links_append hd_or_append)

lemma alloc_loop_ring:
  assumes "ws \<noteq> []" "last ws = a_p s" "distinct ws" "links (mem s) ws z"
    "hd_or ws z = nxt (mem s) (a_p s)"
  shows "alloc_loop s n (a_p s) (nxt (mem s) (a_p s)) =
     (case dropWhile (\<lambda>w. \<not> n \<le> nunits (mem s) w) ws of
        [] \<Rightarrow> Some (s, 0)
      | cur # vs \<Rightarrow>
          Some (alloc_match s n (last (a_p s # takeWhile (\<lambda>w. \<not> n \<le> nunits (mem s) w) ws)) cur))"
proof (cases "dropWhile (\<lambda>w. \<not> n \<le> nunits (mem s) w) ws")
  case Nil
  then have all: "\<forall>w\<in>set ws. \<not> n \<le> nunits (mem s) w"
    by (simp add: dropWhile_eq_Nil_conv)
  from assms(1,2) have ws: "ws = butlast ws @ [a_p s]"
    by (metis append_butlast_last_id)
  have nc: "\<forall>u\<in>set (butlast ws). u \<noteq> a_p s"
    using assms(3) ws by (metis distinct_append disjoint_iff list.set_intros(1))
  have l: "links (mem s) (butlast ws @ a_p s # []) z"
    using assms(4) ws by simp
  have h: "hd_or (butlast ws) (a_p s) = nxt (mem s) (a_p s)"
    using assms(5) ws by (metis hd_or_append hd_or.simps(2))
  have "alloc_loop s n (a_p s) (hd_or (butlast ws) (a_p s))
      = alloc_loop s n (last (a_p s # butlast ws)) (a_p s)"
    using l all nc by (intro alloc_loop_skip) (auto dest: in_set_butlastD)
  also have "\<dots> = Some (s, 0)"
  proof -
    have "a_p s \<in> set ws"
      using assms(1,2) last_in_set by metis
    then have "\<not> n \<le> nunits (mem s) (a_p s)"
      using all by blast
    then show ?thesis
      by (subst alloc_loop.simps) simp
  qed
  finally show ?thesis
    unfolding h Nil by simp
next
  case (Cons cur vs)
  let ?us = "takeWhile (\<lambda>w. \<not> n \<le> nunits (mem s) w) ws"
  have ws: "ws = ?us @ cur # vs"
    using Cons by (metis takeWhile_dropWhile_id)
  have m: "n \<le> nunits (mem s) cur"
    using Cons by (metis hd_dropWhile list.sel(1) list.distinct(1))
  have P: "\<forall>u\<in>set ?us. \<not> n \<le> nunits (mem s) u"
    by (auto dest: set_takeWhileD)
  have "a_p s \<in> set (cur # vs)"
    using assms(2) ws by (metis last_appendR last_in_set list.distinct(1))
  then have nc: "\<forall>u\<in>set ?us. u \<noteq> a_p s"
    using assms(3) ws by (metis distinct_append disjoint_iff)
  have l: "links (mem s) (?us @ cur # vs) z"
    using assms(4) ws by simp
  have h: "hd_or ?us cur = nxt (mem s) (a_p s)"
    using assms(5) ws by (metis hd_or_append hd_or.simps(2))
  have "alloc_loop s n (a_p s) (hd_or ?us cur) = alloc_loop s n (last (a_p s # ?us)) cur"
    using l P nc by (intro alloc_loop_skip) auto
  also have "\<dots> = Some (alloc_match s n (last (a_p s # ?us)) cur)"
    using m by (subst alloc_loop.simps) simp
  finally show ?thesis
    unfolding h Cons by simp
qed

section \<open>Word arithmetic\<close>

lemma ucast_UNITSZ: "(ucast (ucast UNITSZ :: 8 word) :: 64 word) = 16"
  by (simp add: UNITSZ_def)

lemma ucast_ucast_small: "unat (y::64 word) < 256 \<Longrightarrow> (ucast (ucast y :: 8 word) :: 64 word) = y"
  by (simp add: word_unat_eq_iff unsigned_ucast_eq unsigned_take_bit_eq take_bit_nat_eq_self)

lemma unat_add_mult16: "unat (h::64 word) + 16 * unat (k::64 word) < 2 ^ 64 \<Longrightarrow> unat (h + k * 16) = unat h + 16 * unat k"
proof -
  assume a: "unat h + 16 * unat k < 2 ^ 64"
  then have "unat k * unat (16::64 word) < 2 ^ LENGTH(64)" by simp
  then have 1: "unat (k * 16) = unat k * 16"
    using unat_mult_lem [of k 16] by simp
  with a have "unat h + unat (k * 16) < 2 ^ LENGTH(64)" by simp
  then have "unat (h + k * 16) = unat h + unat (k * 16)"
    using unat_add_lem [of h "k * 16"] by simp
  with 1 show ?thesis by simp
qed

lemma mod16_unat: "((x::64 word) mod 16 = 0) = (unat x mod 16 = 0)"
  by (simp add: word_unat_eq_iff unat_mod)

lemma unat_16_minus_mod: "(x::64 word) mod 16 \<noteq> 0 \<Longrightarrow> unat (16 - x mod 16) = 16 - unat x mod 16"
  by unat_arith

lemma unat_div16: "unat ((x::64 word) div 16) = unat x div 16"
  by (simp add: unat_div)

lemma unat_bound64: "unat (x::64 word) < 18446744073709551616"
  using unsigned_less [of x, where ?'a = nat] by simp

lemma size_max_less: "(SIZE_MAX - i < (x::64 word)) = (2 ^ 64 \<le> unat x + unat i)"
proof -
  have M: "unat (- 1 :: 64 word) = 18446744073709551615"
    by (simp add: unsigned_minus_1_eq_mask mask_eq_exp_minus_1)
  have "i \<le> - 1"
    by simp
  then have "unat (- 1 - i) = 18446744073709551615 - unat i"
    using unat_sub [of i "- 1"] M by simp
  then show ?thesis
    using unat_bound64 [of x] unat_bound64 [of i]
    by (simp add: SIZE_MAX_def word_less_nat_alt) arith
qed

lemma round_up16: "(n + (16 - n mod 16) mod 16) div 16 = (n + 15) div (16::nat)"
proof -
  obtain q r where n: "n = 16 * q + r" and r: "r < 16"
    by (metis mod_less_divisor mult_div_mod_eq zero_less_numeral)
  show ?thesis
  proof (cases "r = 0")
    case True
    with n show ?thesis by simp
  next
    case False
    with n r have "(16 - n mod 16) mod 16 = 16 - r" by simp
    with n r False show ?thesis by simp
  qed
qed

lemma aln_offset_UNITSZ:
  "(ucast (aln_offset x (ucast UNITSZ)) :: 64 word) = (if x mod 16 = 0 then 0 else 16 - x mod 16)"
proof -
  have "unat (16 - x mod 16) < 256" if "x mod 16 \<noteq> 0"
    using that unat_16_minus_mod [of x] by simp
  then show ?thesis
    by (simp add: aln_offset_def ucast_UNITSZ ucast_ucast_small)
qed

lemma unat_inc:
  "unat (ucast (aln_offset x (ucast UNITSZ)) :: 64 word) = (16 - unat x mod 16) mod 16"
  by (simp add: aln_offset_UNITSZ mod16_unat unat_16_minus_mod)

lemma size_invalid_iff:
  "size_invalid x \<longleftrightarrow> unat x = 0 \<or> 2 ^ 64 \<le> unat x + (16 - unat x mod 16) mod 16"
  by (simp add: size_invalid_def size_max_less unat_inc unat_eq_0)

lemma units_needed_unat:
  assumes "\<not> size_invalid x"
  shows "unat (units_needed x) = (unat x + 15) div 16 + 1"
proof -
  define i where "i = (ucast (aln_offset x (ucast UNITSZ)) :: 64 word)"
  have ui: "unat i = (16 - unat x mod 16) mod 16"
    by (simp add: i_def unat_inc)
  from assms have b: "unat x + unat i < 2 ^ 64"
    by (simp add: size_invalid_iff ui)
  then have 1: "unat (x + i) = unat x + unat i"
    using unat_add_lem [of x i] by simp
  have 2: "unat ((x + i) div 16) = (unat x + 15) div 16"
    by (simp only: unat_div16 1 ui round_up16)
  have "unat ((x + i) div 16) + unat (1::64 word) < 2 ^ LENGTH(64)"
    using unat_bound64 [of x] unfolding 2 by simp
  then have "unat ((x + i) div 16 + 1) = unat ((x + i) div 16) + 1"
    using unat_add_lem [of "(x + i) div 16" 1] by simp
  with 2 have "unat ((x + i) div 16 + 1) = (unat x + 15) div 16 + 1"
    by simp
  then show ?thesis
    by (simp only: units_needed_def UNITSZ_def i_def)
qed

lemma units_needed_ge2: "\<not> size_invalid x \<Longrightarrow> 2 \<le> unat (units_needed x)"
proof -
  assume a: "\<not> size_invalid x"
  then have "1 \<le> unat x"
    by (simp add: size_invalid_iff)
  then have "1 \<le> (unat x + 15) div 16"
    by simp
  with units_needed_unat [OF a] show ?thesis
    by simp
qed

lemma allocator_alloc_alt:
  "allocator_alloc s nbytes =
     (if size_invalid nbytes then Some (s, 0)
      else if a_p s \<noteq> 0 then
        alloc_loop s (units_needed nbytes) (a_p s) (nxt (mem s) (a_p s))
      else Some (s, 0))"
  by (simp add: allocator_alloc_def size_invalid_def units_needed_def Let_def)

lemma ptr_add_unat:
  "unat h + 16 * unat k < 2 ^ 64 \<Longrightarrow> unat (ptr_add h k) = unat h + 16 * unat k"
  by (simp add: ptr_add_def UNITSZ_def unat_add_mult16)

lemma blk_okD:
  assumes "blk_ok m h"
  shows "h \<noteq> 0" "unat h mod 8 = 0" "1 \<le> unat (nunits m h)" "blk_end m h < 2 ^ 64"
    "unat h + 16 \<le> blk_end m h" "unat (h + 8) = unat h + 8" "unat (h + 16) = unat h + 16"
proof -
  show 1: "h \<noteq> 0" "unat h mod 8 = 0" "1 \<le> unat (nunits m h)" "blk_end m h < 2 ^ 64"
    using assms by (simp_all add: blk_ok_def)
  then show 2: "unat h + 16 \<le> blk_end m h"
    by (simp add: blk_end_def)
  with 1 show "unat (h + 8) = unat h + 8" "unat (h + 16) = unat h + 16"
    using unat_add_lem [of h 8] unat_add_lem [of h 16] by simp_all
qed

lemma separated_pair:
  "separated m bs \<Longrightarrow> x \<in> set bs \<Longrightarrow> y \<in> set bs \<Longrightarrow> x \<noteq> y \<Longrightarrow>
   blk_end m x < unat y \<or> blk_end m y < unat x"
  unfolding separated_def by (induction bs) auto

lemma separated_distinct:
  "separated m bs \<Longrightarrow> list_all (blk_ok m) bs \<Longrightarrow> distinct bs"
  unfolding separated_def
proof (induction bs)
  case Nil
  then show ?case by simp
next
  case (Cons b bs)
  then have "unat b + 16 \<le> blk_end m b"
    by (simp add: blk_okD)
  with Cons show ?case
    by (auto simp: list_all_iff)
qed

section \<open>Blocks of a well-formed free list\<close>

lemma freelist_invD:
  assumes "freelist_inv s bs" "bs \<noteq> []"
  shows "a_p s \<in> set bs" "links (mem s) bs (hd_or bs 0)" "list_all (blk_ok (mem s)) bs"
    "separated (mem s) bs" "distinct bs" "\<And>b. b \<in> set bs \<Longrightarrow> blk_ok (mem s) b"
proof -
  show 1: "a_p s \<in> set bs" "links (mem s) bs (hd_or bs 0)" "list_all (blk_ok (mem s)) bs"
    "separated (mem s) bs"
    using assms by (simp_all add: freelist_inv_def)
  then show "distinct bs"
    by (simp add: separated_distinct)
  show "\<And>b. b \<in> set bs \<Longrightarrow> blk_ok (mem s) b"
    using 1 by (simp add: list_all_iff)
qed

text \<open>An address inside one free block is outside every other one.\<close>

lemma separated_inside:
  assumes "separated m bs" "list_all (blk_ok m) bs" "b \<in> set bs" "c \<in> set bs" "b \<noteq> c"
    "unat c \<le> a" "a < blk_end m c"
  shows "a < unat b \<or> blk_end m b < a"
proof -
  have "unat c + 16 \<le> blk_end m c" "unat b + 16 \<le> blk_end m b"
    using assms(2-4) by (simp_all add: list_all_iff blk_okD)
  with separated_pair [OF assms(1,3,4,5)] assms(6,7) show ?thesis
    by linarith
qed

lemma word_neq_unat: "unat (a::64 word) \<noteq> unat b \<Longrightarrow> a \<noteq> b"
  by auto

lemma split_facts:
  assumes ok: "blk_ok m cur" and big: "n < nunits m cur" and n1: "1 \<le> unat n"
  defines "k \<equiv> nunits m cur - n"
  defines "tail \<equiv> ptr_add cur k"
  shows "unat k + unat n = unat (nunits m cur)" "1 \<le> unat k"
    "unat tail = unat cur + 16 * unat k" "unat tail + 16 * unat n = blk_end m cur"
proof -
  have lt: "unat n < unat (nunits m cur)"
    using big by (simp add: word_less_nat_alt)
  have "unat k = unat (nunits m cur) - unat n"
    unfolding k_def using big unat_sub [of n "nunits m cur"] by simp
  with lt show k: "unat k + unat n = unat (nunits m cur)"
    by simp
  with lt show "1 \<le> unat k"
    by simp
  have "unat cur + 16 * unat k < 2 ^ 64"
    using blk_okD(4) [OF ok] k by (simp add: blk_end_def)
  then show t: "unat tail = unat cur + 16 * unat k"
    unfolding tail_def by (rule ptr_add_unat)
  show "unat tail + 16 * unat n = blk_end m cur"
    using t k by (simp add: blk_end_def)
qed

lemma inv_shrink:
  assumes inv: "freelist_inv s bs" and ne: "bs \<noteq> []" and c: "c' \<in> set bs"
    and nx: "\<And>b. b \<in> set bs \<Longrightarrow> nxt m' b = nxt (mem s) b"
    and nu: "\<And>b. b \<in> set bs \<Longrightarrow>
        1 \<le> unat (nunits m' b) \<and> unat (nunits m' b) \<le> unat (nunits (mem s) b)"
  shows "freelist_inv \<lparr>a_p = c', mem = m'\<rparr> bs"
proof -
  note D = freelist_invD [OF inv ne]
  have e: "blk_end m' b \<le> blk_end (mem s) b" if "b \<in> set bs" for b
    using nu [OF that] by (simp add: blk_end_def)
  have l: "links m' bs (hd_or bs 0)"
    using D(2) links_cong [of bs m' "mem s" "hd_or bs 0"] nx by blast
  have o: "list_all (blk_ok m') bs"
    unfolding list_all_iff
  proof
    fix b assume b: "b \<in> set bs"
    note B = blk_okD [OF D(6) [OF b]]
    have "blk_end m' b < 2 ^ 64"
      using e [OF b] B(4) by (rule le_less_trans)
    with B(1,2) nu [OF b] show "blk_ok m' b"
      unfolding blk_ok_def by blast
  qed
  have "sorted_wrt (\<lambda>a b. blk_end m' a < unat b) bs"
  proof (rule sorted_wrt_mono_rel [OF _ D(4) [unfolded separated_def]])
    fix x y assume "x \<in> set bs" "y \<in> set bs" "blk_end (mem s) x < unat y"
    with e [of x] show "blk_end m' x < unat y"
      by (rule_tac le_less_trans)
  qed
  then have "separated m' bs"
    by (simp add: separated_def)
  with l o c ne show ?thesis
    by (simp add: freelist_inv_def)
qed

lemma alloc_match_split_eq:
  assumes "n < nunits (mem s) cur"
  shows "alloc_match s n prv cur =
    (\<lparr>a_p = prv, mem = (mem s)(cur := nunits (mem s) cur - n,
        ptr_add cur (nunits (mem s) cur - n) := n)\<rparr>,
     ptr_add (ptr_add cur (nunits (mem s) cur - n)) 1)"
proof -
  from assms have "nunits (mem s) cur \<noteq> n"
    by auto
  then show ?thesis
    by (simp add: alloc_match_def Let_def set_nunits_def)
qed

lemma split_fields:
  assumes inv: "freelist_inv s bs" and cur: "cur \<in> set bs"
    and big: "n < nunits (mem s) cur" and n1: "1 \<le> unat n"
  defines "k \<equiv> nunits (mem s) cur - n"
  defines "tail \<equiv> ptr_add cur k"
  defines "m' \<equiv> (mem s)(cur := k, tail := n)"
  shows "\<And>b. b \<in> set bs \<Longrightarrow> nxt m' b = nxt (mem s) b"
    and "\<And>b. b \<in> set bs \<Longrightarrow> nunits m' b = (if b = cur then k else nunits (mem s) b)"
    and "nunits m' tail = n"
proof -
  have ne: "bs \<noteq> []" using cur by auto
  note D = freelist_invD [OF inv ne]
  note S = split_facts [OF D(6) [OF cur] big n1, folded k_def tail_def]
  note C = blk_okD [OF D(6) [OF cur]]
  have out: "b \<noteq> tail \<and> b + 8 \<noteq> tail \<and> b + 8 \<noteq> cur" if b: "b \<in> set bs" for b
  proof -
    note B = blk_okD [OF D(6) [OF b]]
    have "unat b \<noteq> unat tail \<and> unat b + 8 \<noteq> unat tail \<and> unat b + 8 \<noteq> unat cur"
    proof (cases "b = cur")
      case True
      with S(2,3) show ?thesis
        by simp
    next
      case False
      have "unat tail < unat b \<or> blk_end (mem s) b < unat tail"
        using separated_inside [OF D(4,3) b cur False, of "unat tail"] S(2,3,4) n1 by simp
      moreover have "unat cur < unat b \<or> blk_end (mem s) b < unat cur"
        using separated_inside [OF D(4,3) b cur False, of "unat cur"] C(5) by simp
      ultimately show ?thesis
        using B(5) S(2,3) by linarith
    qed
    then show ?thesis
      using B(6) by (metis word_neq_unat)
  qed
  show "\<And>b. b \<in> set bs \<Longrightarrow> nxt m' b = nxt (mem s) b"
    using out by (simp add: m'_def nxt_def)
  show "\<And>b. b \<in> set bs \<Longrightarrow> nunits m' b = (if b = cur then k else nunits (mem s) b)"
    using out by (simp add: m'_def nunits_def)
  show "nunits m' tail = n"
    by (simp add: m'_def nunits_def)
qed

section \<open>The ring's successor function\<close>

lemma links_nth:
  "links m bs z \<Longrightarrow> i < length bs \<Longrightarrow> nxt m (bs ! i) = (bs @ [z]) ! Suc i"
proof (induction bs arbitrary: i)
  case Nil
  then show ?case by simp
next
  case (Cons b bs)
  show ?case
  proof (cases i)
    case 0
    with Cons.prems show ?thesis
      by (cases bs) auto
  next
    case (Suc j)
    with Cons show ?thesis
      by simp
  qed
qed

lemma ring_succ_inj:
  assumes l: "links m bs (hd_or bs 0)" and d: "distinct bs"
    and p: "p \<in> set bs" and q: "q \<in> set bs" and e: "nxt m p = nxt m q"
  shows "p = q"
proof -
  obtain i j where i: "i < length bs" "bs ! i = p" and j: "j < length bs" "bs ! j = q"
    using p q by (metis in_set_conv_nth)
  have ne: "bs \<noteq> []" using p by auto
  then have z: "hd_or bs 0 = bs ! 0"
    by (cases bs) auto
  have s: "nxt m (bs ! k) = bs ! (Suc k mod length bs)" if "k < length bs" for k
  proof (cases "Suc k < length bs")
    case True
    with links_nth [OF l that] show ?thesis
      by (simp add: nth_append)
  next
    case False
    with that have "Suc k = length bs" by simp
    with links_nth [OF l that] z show ?thesis
      by (simp add: nth_append)
  qed
  have "bs ! (Suc i mod length bs) = bs ! (Suc j mod length bs)"
    using s [OF i(1)] s [OF j(1)] e i(2) j(2) by simp
  moreover have "Suc i mod length bs < length bs" "Suc j mod length bs < length bs"
    using ne by simp_all
  ultimately have "Suc i mod length bs = Suc j mod length bs"
    using d by (simp add: nth_eq_iff_index_eq)
  then have "i = j"
    using i(1) j(1)
    by (metis Suc_lessI mod_less mod_self nat.inject nat.distinct(1) less_not_refl)
  with i j show ?thesis by simp
qed

lemma ring_self_loop:
  assumes l: "links m bs (hd_or bs 0)" and d: "distinct bs"
    and c: "c \<in> set bs" and e: "nxt m c = c"
  shows "bs = [c]"
proof -
  obtain xs ys where bs: "bs = xs @ c # ys"
    using c by (meson split_list)
  have ys: "ys = []"
  proof (rule ccontr)
    assume "ys \<noteq> []"
    then obtain y ys' where "ys = y # ys'" by (cases ys) auto
    with l bs have "nxt m c = y" by (simp add: links_append)
    with e d bs \<open>ys = y # ys'\<close> show False by auto
  qed
  have "xs = []"
  proof (rule ccontr)
    assume "xs \<noteq> []"
    then obtain x xs' where x: "xs = x # xs'" by (cases xs) auto
    with l bs ys have "nxt m c = x" by (simp add: links_append)
    with e d bs x show False by auto
  qed
  with bs ys show ?thesis by simp
qed

lemma links_set_last:
  assumes "links m xs z" "xs \<noteq> []" "distinct xs"
    "\<And>x. x \<in> set (butlast xs) \<Longrightarrow> nxt m' x = nxt m x" "nxt m' (last xs) = z'"
  shows "links m' xs z'"
  using assms
proof (induction xs)
  case Nil
  then show ?case by simp
next
  case (Cons x xs)
  show ?case
  proof (cases xs)
    case Nil
    with Cons.prems show ?thesis by simp
  next
    case (Cons y ys)
    with Cons.prems Cons.IH show ?thesis by auto
  qed
qed

section \<open>Unlinking a block\<close>

lemma blk_end_cong: "nunits m' b = nunits m b \<Longrightarrow> blk_end m' b = blk_end m b"
  by (simp add: blk_end_def)

lemma blk_ok_cong: "nunits m' b = nunits m b \<Longrightarrow> blk_ok m' b = blk_ok m b"
  by (simp add: blk_ok_def blk_end_def)

lemma separated_cong:
  assumes "\<And>b. b \<in> set bs \<Longrightarrow> nunits m' b = nunits m b"
  shows "separated m' bs = separated m bs"
proof -
  have e: "blk_end m' b = blk_end m b" if "b \<in> set bs" for b
    using assms [OF that] by (rule blk_end_cong)
  have "sorted_wrt (\<lambda>a b. blk_end m' a < unat b) bs" if "sorted_wrt (\<lambda>a b. blk_end m a < unat b) bs"
    by (rule sorted_wrt_mono_rel [OF _ that]) (simp add: e)
  moreover have "sorted_wrt (\<lambda>a b. blk_end m a < unat b) bs" if "sorted_wrt (\<lambda>a b. blk_end m' a < unat b) bs"
    by (rule sorted_wrt_mono_rel [OF _ that]) (simp add: e)
  ultimately show ?thesis
    unfolding separated_def by blast
qed

lemma freelist_invI:
  "bs \<noteq> [] \<Longrightarrow> c \<in> set bs \<Longrightarrow> links m bs (hd_or bs 0) \<Longrightarrow> list_all (blk_ok m) bs \<Longrightarrow>
   separated m bs \<Longrightarrow> freelist_inv \<lparr>a_p = c, mem = m\<rparr> bs"
  by (simp add: freelist_inv_def)

lemma unlink_fields:
  assumes inv: "freelist_inv s bs" and prv: "prv \<in> set bs"
    and m': "m' = set_nxt (mem s) prv v"
  shows "\<And>b. b \<in> set bs \<Longrightarrow> nunits m' b = nunits (mem s) b"
    and "\<And>b. b \<noteq> prv \<Longrightarrow> nxt m' b = nxt (mem s) b"
    and "nxt m' prv = v"
proof -
  have ne: "bs \<noteq> []" using prv by auto
  note D = freelist_invD [OF inv ne]
  note P = blk_okD [OF D(6) [OF prv]]
  have "b \<noteq> prv + 8" if b: "b \<in> set bs" for b
  proof -
    note B = blk_okD [OF D(6) [OF b]]
    have "unat b \<noteq> unat prv + 8"
    proof (cases "b = prv")
      case True
      then show ?thesis by simp
    next
      case False
      have "unat prv + 8 < unat b \<or> blk_end (mem s) b < unat prv + 8"
        using separated_inside [OF D(4,3) b prv False, of "unat prv + 8"] P(5) by simp
      then show ?thesis
        using B(5) by linarith
    qed
    then show ?thesis
      using P(6) by (metis word_neq_unat)
  qed
  then show "\<And>b. b \<in> set bs \<Longrightarrow> nunits m' b = nunits (mem s) b"
    by (simp add: m' nunits_def set_nxt_def)
  show "\<And>b. b \<noteq> prv \<Longrightarrow> nxt m' b = nxt (mem s) b"
    by (simp add: m' nxt_def set_nxt_def)
  show "nxt m' prv = v"
    by (simp add: m' nxt_def set_nxt_def)
qed

lemma alloc_unlink_inv:
  assumes inv: "freelist_inv s bs" and cur: "cur \<in> set bs" and prv: "prv \<in> set bs"
    and pc: "nxt (mem s) prv = cur" and ns: "nxt (mem s) cur \<noteq> cur"
  shows "freelist_inv \<lparr>a_p = prv, mem = set_nxt (mem s) prv (nxt (mem s) cur)\<rparr> (remove1 cur bs)"
proof -
  let ?m = "mem s" and ?m' = "set_nxt (mem s) prv (nxt (mem s) cur)"
  have ne: "bs \<noteq> []" using cur by auto
  note D = freelist_invD [OF inv ne]
  note F = unlink_fields [OF inv prv refl, where v = "nxt ?m cur"]
  have pn: "prv \<noteq> cur"
    using pc ns by auto
  obtain xs ys where bs: "bs = xs @ cur # ys"
    using cur by (meson split_list)
  have d: "distinct xs" "distinct ys" "cur \<notin> set xs" "cur \<notin> set ys" "set xs \<inter> set ys = {}"
    using D(5) bs by auto
  have rm: "remove1 cur bs = xs @ ys"
    using d(3) bs by (simp add: remove1_append)
  let ?z = "hd_or xs cur"
  have L: "links ?m xs cur" "nxt ?m cur = hd_or ys ?z" "links ?m ys ?z"
    using D(2) bs by (simp_all add: links_append hd_or_append)
  have ring': "links ?m' (xs @ ys) (hd_or (xs @ ys) 0)"
  proof (cases "xs = []")
    case True
    then have z: "?z = cur" by simp
    have yne: "ys \<noteq> []"
      using L(2) ns z by (cases ys) auto
    then have "nxt ?m (last ys) = cur"
      using links_last [OF _ L(3)] z by simp
    then have p: "prv = last ys"
      using ring_succ_inj [OF D(2,5) prv, of "last ys"] pc yne bs by simp
    have h: "hd_or ys 0 = nxt ?m cur"
      using L(2) yne by (cases ys) auto
    have "links ?m' ys (nxt ?m cur)"
    proof (rule links_set_last [OF L(3) yne d(2)])
      fix x assume "x \<in> set (butlast ys)"
      then have "x \<noteq> prv"
        using p d(2) yne by (metis append_butlast_last_id distinct_append disjoint_iff list.set_intros(1))
      then show "nxt ?m' x = nxt ?m x"
        by (rule F(2))
    next
      show "nxt ?m' (last ys) = nxt ?m cur"
        using F(3) p by simp
    qed
    with True h show ?thesis by simp
  next
    case False
    then have z: "?z = hd_or xs 0" "hd_or (xs @ ys) 0 = ?z"
      by (cases xs; simp)+
    have "nxt ?m (last xs) = cur"
      using links_last [OF False L(1)] .
    then have p: "prv = last xs"
      using ring_succ_inj [OF D(2,5) prv, of "last xs"] pc False bs by simp
    have 1: "links ?m' xs (hd_or ys ?z)"
    proof (rule links_set_last [OF L(1) False d(1)])
      fix x assume "x \<in> set (butlast xs)"
      then have "x \<noteq> prv"
        using p d(1) False by (metis append_butlast_last_id distinct_append disjoint_iff list.set_intros(1))
      then show "nxt ?m' x = nxt ?m x"
        by (rule F(2))
    next
      show "nxt ?m' (last xs) = hd_or ys ?z"
        using F(3) p L(2) by simp
    qed
    have "prv \<notin> set ys"
      using p False d(5) by (metis last_in_set disjoint_iff)
    then have "nxt ?m' x = nxt ?m x" if "x \<in> set ys" for x
      using that F(2) [of x] by auto
    then have 2: "links ?m' ys ?z"
      using L(3) by (simp only: links_cong [of ys ?m' ?m ?z])
    from 1 2 z show ?thesis
      by (simp add: links_append)
  qed
  have sub: "set (xs @ ys) \<subseteq> set bs"
    using bs by auto
  have ok: "list_all (blk_ok ?m') (xs @ ys)"
    unfolding list_all_iff
  proof
    fix b assume "b \<in> set (xs @ ys)"
    with sub have b: "b \<in> set bs" by blast
    from D(6) [OF b] blk_ok_cong [OF F(1) [OF b]] show "blk_ok ?m' b" by simp
  qed
  have "separated ?m (xs @ ys)"
    using D(4) bs by (auto simp: separated_def sorted_wrt_append)
  moreover have "separated ?m' (xs @ ys) = separated ?m (xs @ ys)"
    by (rule separated_cong) (use F(1) sub in blast)
  ultimately have sep: "separated ?m' (xs @ ys)"
    by simp
  have p: "prv \<in> set (xs @ ys)"
    using prv pn bs by auto
  then have "xs @ ys \<noteq> []"
    by auto
  then show ?thesis
    unfolding rm using p ring' ok sep by (rule freelist_invI)
qed

section \<open>What \<open>allocator_alloc\<close> does on a well-formed free list\<close>

lemma walk_order_props:
  assumes l: "links m bs (hd_or bs 0)" and d: "distinct bs" and c: "c \<in> set bs"
  shows "walk_order c bs \<noteq> []" "last (walk_order c bs) = c" "distinct (walk_order c bs)"
    "set (walk_order c bs) = set bs" "links m (walk_order c bs) (nxt m c)"
    "hd_or (walk_order c bs) z = nxt m c"
proof -
  let ?ys = "takeWhile (\<lambda>b. b \<noteq> c) bs" and ?zs = "tl (dropWhile (\<lambda>b. b \<noteq> c) bs)"
  have dw: "dropWhile (\<lambda>b. b \<noteq> c) bs = c # ?zs"
    using c by (metis (mono_tags, lifting) dropWhile_eq_Nil_conv hd_dropWhile list.collapse)
  then have bs: "bs = ?ys @ c # ?zs"
    by (metis takeWhile_dropWhile_id)
  have w: "walk_order c bs = ?zs @ ?ys @ [c]"
    using c by (simp add: walk_order_def)
  show "walk_order c bs \<noteq> []" "last (walk_order c bs) = c"
    by (simp_all add: w)
  have "distinct (?ys @ c # ?zs)" "set (?ys @ c # ?zs) = set bs"
    using d bs by simp_all
  then show "distinct (walk_order c bs)" "set (walk_order c bs) = set bs"
    unfolding w by auto
  have "hd_or bs 0 = hd_or ?ys c"
    using bs by (metis hd_or_append hd_or.simps(2))
  then have "links m (?ys @ c # ?zs) (hd_or ?ys c)"
    using l bs by simp
  from ring_rotate [OF this] show "links m (walk_order c bs) (nxt m c)"
    "hd_or (walk_order c bs) z = nxt m c"
    unfolding w by (simp_all add: hd_or_append)
qed

lemma links_pred_in:
  "links m (us @ cur # vs) z \<Longrightarrow> us \<noteq> [] \<Longrightarrow> nxt m (last us) = cur"
  by (simp add: links_append links_last)

lemma find_first:
  "\<forall>u\<in>set us. \<not> P u \<Longrightarrow> P cur \<Longrightarrow> find P (us @ cur # vs) = Some cur"
  by (induction us) auto

lemma alloc_cases:
  assumes inv: "freelist_inv s bs"
  obtains
    (invalid) "size_invalid nbytes" "allocator_alloc s nbytes = Some (s, 0)"
  | (empty) "\<not> size_invalid nbytes" "bs = []" "allocator_alloc s nbytes = Some (s, 0)"
  | (nofit) "\<not> size_invalid nbytes" "bs \<noteq> []"
      "\<forall>b\<in>set bs. nunits (mem s) b < units_needed nbytes"
      "allocator_alloc s nbytes = Some (s, 0)"
  | (fit) prv cur where "\<not> size_invalid nbytes" "prv \<in> set bs" "cur \<in> set bs"
      "nxt (mem s) prv = cur" "units_needed nbytes \<le> nunits (mem s) cur"
      "find (\<lambda>w. units_needed nbytes \<le> nunits (mem s) w) (walk_order (a_p s) bs) = Some cur"
      "allocator_alloc s nbytes = Some (alloc_match s (units_needed nbytes) prv cur)"
proof (cases "size_invalid nbytes")
  case True
  then show ?thesis
    by (intro invalid) (simp_all add: allocator_alloc_alt)
next
  case valid: False
  show ?thesis
  proof (cases "bs = []")
    case True
    with inv have "a_p s = 0" by (simp add: freelist_inv_def)
    with valid True show ?thesis
      by (intro empty) (simp_all add: allocator_alloc_alt)
  next
    case ne: False
    note D = freelist_invD [OF inv ne]
    let ?n = "units_needed nbytes" and ?ws = "walk_order (a_p s) bs"
    let ?P = "\<lambda>w. \<not> ?n \<le> nunits (mem s) w"
    note W = walk_order_props [OF D(2,5,1)]
    have nz: "a_p s \<noteq> 0"
      using blk_okD(1) [OF D(6) [OF D(1)]] .
    have eq: "allocator_alloc s nbytes =
      (case dropWhile ?P ?ws of [] \<Rightarrow> Some (s, 0)
       | cur # vs \<Rightarrow> Some (alloc_match s ?n (last (a_p s # takeWhile ?P ?ws)) cur))"
      using valid nz alloc_loop_ring [OF W(1,2,3,5) W(6), of ?n]
      by (simp add: allocator_alloc_alt)
    show ?thesis
    proof (cases "dropWhile ?P ?ws")
      case Nil
      then have "\<forall>b\<in>set bs. nunits (mem s) b < ?n"
        using W(4) by (auto simp: dropWhile_eq_Nil_conv not_le)
      moreover have "allocator_alloc s nbytes = Some (s, 0)"
        unfolding eq Nil by simp
      ultimately show ?thesis
        using valid ne by (intro nofit)
    next
      case (Cons cur vs)
      let ?us = "takeWhile ?P ?ws"
      let ?prv = "last (a_p s # ?us)"
      have ws: "?ws = ?us @ cur # vs"
        using Cons by (metis takeWhile_dropWhile_id)
      have m: "?n \<le> nunits (mem s) cur"
        using Cons by (metis hd_dropWhile list.sel(1) list.distinct(1))
      have cur: "cur \<in> set bs"
        using ws W(4) by (metis in_set_conv_decomp)
      have prv: "?prv \<in> set bs"
      proof (cases "?us = []")
        case True
        with D(1) show ?thesis by simp
      next
        case False
        then have "last ?us \<in> set ?ws"
          using ws by (metis last_in_set Un_iff set_append)
        with False W(4) show ?thesis by simp
      qed
      have pc: "nxt (mem s) ?prv = cur"
      proof (cases "?us = []")
        case True
        with ws W(6) [of 0] show ?thesis
          by (metis hd_or.simps(2) append_Nil last.simps)
      next
        case False
        have "links (mem s) (?us @ cur # vs) (nxt (mem s) (a_p s))"
          using W(5) ws by simp
        from links_pred_in [OF this False] False show ?thesis by simp
      qed
      have f: "find (\<lambda>w. ?n \<le> nunits (mem s) w) ?ws = Some cur"
        using m by (subst ws, intro find_first) (auto dest: set_takeWhileD)
      have "allocator_alloc s nbytes = Some (alloc_match s ?n ?prv cur)"
        unfolding eq Cons by simp
      with valid prv cur pc m f show ?thesis
        by (intro fit)
    qed
  qed
qed

lemma ptr_add_1: "ptr_add h 1 - UNITSZ = h"
  by (simp add: ptr_add_def)

lemma ptr_add_1_nz: "blk_ok m h \<Longrightarrow> ptr_add h 1 \<noteq> 0"
proof -
  assume "blk_ok m h"
  from blk_okD(7) [OF this] have "unat (ptr_add h 1) = unat h + 16"
    by (simp add: ptr_add_def UNITSZ_def)
  then show ?thesis
    by (metis add_is_0 unat_0 zero_neq_numeral)
qed

lemma outside_ne:
  assumes "outside m bs a" "b \<in> set bs" "unat b \<le> x" "x < blk_end m b"
  shows "unat a \<noteq> x"
  using assms by (auto simp: outside_def list_all_iff)

lemma alloc_match_singleton:
  assumes inv: "freelist_inv s bs" and cur: "cur \<in> set bs" and prv: "prv \<in> set bs"
    and pc: "nxt (mem s) prv = cur" and ex: "nunits (mem s) cur = n"
    and self: "nxt (mem s) cur = cur"
  shows "alloc_match s n prv cur = (s\<lparr>a_p := 0\<rparr>, ptr_add cur 1)"
    and "alloc_post s bs n (s\<lparr>a_p := 0\<rparr>) (ptr_add cur 1) []"
proof -
  have ne: "bs \<noteq> []" using cur by auto
  note D = freelist_invD [OF inv ne]
  show "alloc_match s n prv cur = (s\<lparr>a_p := 0\<rparr>, ptr_add cur 1)"
    using pc ex self by (simp add: alloc_match_def Let_def)
  have "blk_ok (mem s) cur"
    by (rule D(6) [OF cur])
  moreover have "list_ex (\<lambda>c. unat c \<le> unat cur \<and> blk_end (mem s) cur \<le> blk_end (mem s) c) bs"
    unfolding list_ex_iff using cur by auto
  ultimately show "alloc_post s bs n (s\<lparr>a_p := 0\<rparr>) (ptr_add cur 1) []"
    using ex by (simp add: alloc_post_def freelist_inv_def ptr_add_1 ptr_add_1_nz apart_def)
qed

lemma alloc_match_unlink:
  assumes inv: "freelist_inv s bs" and cur: "cur \<in> set bs" and prv: "prv \<in> set bs"
    and pc: "nxt (mem s) prv = cur" and ex: "nunits (mem s) cur = n"
    and ns: "nxt (mem s) cur \<noteq> cur"
  defines "s' \<equiv> \<lparr>a_p = prv, mem = set_nxt (mem s) prv (nxt (mem s) cur)\<rparr>"
  shows "alloc_match s n prv cur = (s', ptr_add cur 1)"
    and "alloc_post s bs n s' (ptr_add cur 1) (remove1 cur bs)"
proof -
  have ne: "bs \<noteq> []" using cur by auto
  note D = freelist_invD [OF inv ne]
  note F = unlink_fields [OF inv prv refl, where v = "nxt (mem s) cur"]
  note P = blk_okD [OF D(6) [OF prv]]
  show "alloc_match s n prv cur = (s', ptr_add cur 1)"
    using pc ex ns by (simp add: alloc_match_def s'_def Let_def)
  have 1: "freelist_inv s' (remove1 cur bs)"
    unfolding s'_def by (rule alloc_unlink_inv [OF inv cur prv pc ns])
  have ms: "mem s' = set_nxt (mem s) prv (nxt (mem s) cur)"
    by (simp add: s'_def)
  have e: "blk_end (mem s') b = blk_end (mem s) b" if "b \<in> set bs" for b
    unfolding ms using F(1) [OF that] by (rule blk_end_cong)
  have 2: "list_all (\<lambda>b. b \<in> set bs \<and> blk_end (mem s') b \<le> blk_end (mem s) b) (remove1 cur bs)"
    unfolding list_all_iff
  proof
    fix b assume "b \<in> set (remove1 cur bs)"
    then have "b \<in> set bs"
      by (metis notin_set_remove1)
    with e [OF this] show "b \<in> set bs \<and> blk_end (mem s') b \<le> blk_end (mem s) b"
      by simp
  qed
  have 3: "blk_ok (mem s') cur" "nunits (mem s') cur = n"
    using D(6) [OF cur] blk_ok_cong [OF F(1) [OF cur]] F(1) [OF cur] ex by (simp_all add: ms)
  have 4: "list_ex (\<lambda>c. unat c \<le> unat cur \<and> blk_end (mem s') cur \<le> blk_end (mem s) c) bs"
    unfolding list_ex_iff using cur e [OF cur] by auto
  have 5: "apart (mem s') (remove1 cur bs) cur"
    unfolding apart_def list_all_iff
  proof
    fix b assume "b \<in> set (remove1 cur bs)"
    then have b: "b \<in> set bs" "b \<noteq> cur"
      using D(5) by (metis notin_set_remove1, simp)
    from separated_pair [OF D(4) b(1) cur b(2)] e [OF b(1)] e [OF cur]
    show "blk_end (mem s') b \<le> unat cur \<or> blk_end (mem s') cur \<le> unat b"
      by linarith
  qed
  have 6: "mem s' a = mem s a" if "outside (mem s) bs a" for a
  proof -
    have "unat a \<noteq> unat prv + 8"
      using outside_ne [OF that prv, of "unat prv + 8"] P(5) by simp
    then have "a \<noteq> prv + 8"
      using P(6) by (metis word_neq_unat)
    then show ?thesis
      by (simp add: ms set_nxt_def)
  qed
  show "alloc_post s bs n s' (ptr_add cur 1) (remove1 cur bs)"
    unfolding alloc_post_def ptr_add_1
    using 1 2 3 4 5 6 ptr_add_1_nz [OF 3(1)] by blast
qed

lemma alloc_match_split:
  assumes inv: "freelist_inv s bs" and cur: "cur \<in> set bs" and prv: "prv \<in> set bs"
    and big: "n < nunits (mem s) cur" and n1: "1 \<le> unat n"
  defines "k \<equiv> nunits (mem s) cur - n"
  defines "tail \<equiv> ptr_add cur k"
  defines "s' \<equiv> \<lparr>a_p = prv, mem = (mem s)(cur := k, tail := n)\<rparr>"
  shows "alloc_match s n prv cur = (s', ptr_add tail 1)"
    and "alloc_post s bs n s' (ptr_add tail 1) bs"
    and "\<And>b. b \<in> set bs \<Longrightarrow> nxt (mem s') b = nxt (mem s) b"
    and "nunits (mem s') cur = k"
proof -
  have ne: "bs \<noteq> []" using cur by auto
  note D = freelist_invD [OF inv ne]
  note C = blk_okD [OF D(6) [OF cur]]
  note S = split_facts [OF D(6) [OF cur] big n1, folded k_def tail_def]
  note F = split_fields [OF inv cur big n1, folded k_def tail_def]
  have ms: "mem s' = (mem s)(cur := k, tail := n)"
    by (simp add: s'_def)
  show "alloc_match s n prv cur = (s', ptr_add tail 1)"
    unfolding s'_def tail_def k_def by (rule alloc_match_split_eq [OF big])
  show nx: "\<And>b. b \<in> set bs \<Longrightarrow> nxt (mem s') b = nxt (mem s) b"
    unfolding ms by (rule F(1))
  show nk: "nunits (mem s') cur = k"
    unfolding ms using F(2) [OF cur] by simp
  have nu: "1 \<le> unat (nunits (mem s') b) \<and> unat (nunits (mem s') b) \<le> unat (nunits (mem s) b)"
    if b: "b \<in> set bs" for b
    unfolding ms using F(2) [OF b] S(1,2) blk_okD(3) [OF D(6) [OF b]] by auto
  have 1: "freelist_inv s' bs"
    unfolding s'_def by (rule inv_shrink [OF inv ne prv]) (use nx nu ms in auto)
  have e: "blk_end (mem s') b \<le> blk_end (mem s) b" if "b \<in> set bs" for b
    using nu [OF that] by (simp add: blk_end_def)
  have 2: "list_all (\<lambda>b. b \<in> set bs \<and> blk_end (mem s') b \<le> blk_end (mem s) b) bs"
    unfolding list_all_iff using e by auto
  have nt: "nunits (mem s') tail = n"
    unfolding ms by (rule F(3))
  have et: "blk_end (mem s') tail = blk_end (mem s) cur"
    using S(4) nt by (simp add: blk_end_def)
  have "tail \<noteq> 0"
    using S(2,3) by (metis add_is_0 unat_0 mult_is_0 zero_neq_numeral not_one_le_zero)
  moreover have "unat tail mod 8 = 0"
    using S(3) C(2) by presburger
  ultimately have 3: "blk_ok (mem s') tail"
    using n1 nt et C(4) by (simp add: blk_ok_def)
  have 4: "list_ex (\<lambda>c. unat c \<le> unat tail \<and> blk_end (mem s') tail \<le> blk_end (mem s) c) bs"
    unfolding list_ex_iff using cur et S(3) by (intro bexI [of _ cur]) simp_all
  have ec: "blk_end (mem s') cur = unat tail"
    using nk S(3) by (simp add: blk_end_def)
  have 5: "apart (mem s') bs tail"
    unfolding apart_def list_all_iff
  proof
    fix b assume b: "b \<in> set bs"
    show "blk_end (mem s') b \<le> unat tail \<or> blk_end (mem s') tail \<le> unat b"
    proof (cases "b = cur")
      case True
      with ec show ?thesis by simp
    next
      case False
      from separated_pair [OF D(4) b cur False] e [OF b] et S(2,3)
      show ?thesis by linarith
    qed
  qed
  have 6: "mem s' a = mem s a" if "outside (mem s) bs a" for a
  proof -
    have "unat a \<noteq> unat cur" "unat a \<noteq> unat tail"
      using outside_ne [OF that cur, of "unat cur"] outside_ne [OF that cur, of "unat tail"]
        C(5) S(2,3,4) n1 by simp_all
    then have "a \<noteq> cur" "a \<noteq> tail"
      by auto
    then show ?thesis
      by (simp add: ms)
  qed
  show "alloc_post s bs n s' (ptr_add tail 1) bs"
    unfolding alloc_post_def ptr_add_1
    using 1 2 3 4 5 6 nt ptr_add_1_nz [OF 3] by blast
qed

lemma alloc_match_post:
  assumes inv: "freelist_inv s bs" and cur: "cur \<in> set bs" and prv: "prv \<in> set bs"
    and pc: "nxt (mem s) prv = cur" and fit: "n \<le> nunits (mem s) cur" and n1: "1 \<le> unat n"
  shows "\<exists>bs'. alloc_post s bs n (fst (alloc_match s n prv cur)) (snd (alloc_match s n prv cur)) bs'"
proof (cases "n < nunits (mem s) cur")
  case True
  from alloc_match_split(1,2) [OF inv cur prv True n1] show ?thesis
    by (metis fst_conv snd_conv)
next
  case False
  with fit have ex: "nunits (mem s) cur = n"
    by simp
  show ?thesis
  proof (cases "nxt (mem s) cur = cur")
    case True
    from alloc_match_singleton [OF inv cur prv pc ex True] show ?thesis
      by (metis fst_conv snd_conv)
  next
    case False
    from alloc_match_unlink [OF inv cur prv pc ex False] show ?thesis
      by (metis fst_conv snd_conv)
  qed
qed

lemma alloc_result:
  assumes inv: "freelist_inv s bs"
  obtains
    (null) "allocator_alloc s nbytes = Some (s, 0)"
      "size_invalid nbytes \<or> a_p s = 0 \<or> (\<forall>b\<in>set bs. nunits (mem s) b < units_needed nbytes)"
  | (block) s' r bs' where "allocator_alloc s nbytes = Some (s', r)"
      "alloc_post s bs (units_needed nbytes) s' r bs'"
      "\<not> size_invalid nbytes" "a_p s \<noteq> 0"
      "\<not> (\<forall>b\<in>set bs. nunits (mem s) b < units_needed nbytes)"
proof (cases rule: alloc_cases [OF inv, of nbytes])
  case 1
  then show ?thesis by (intro null) simp_all
next
  case 2
  with inv have "a_p s = 0" by (simp add: freelist_inv_def)
  with 2 show ?thesis by (intro null) simp_all
next
  case 3
  then show ?thesis by (intro null) simp_all
next
  case (4 prv cur)
  have n1: "1 \<le> unat (units_needed nbytes)"
    using units_needed_ge2 [OF 4(1)] by simp
  obtain bs' where "alloc_post s bs (units_needed nbytes)
      (fst (alloc_match s (units_needed nbytes) prv cur))
      (snd (alloc_match s (units_needed nbytes) prv cur)) bs'"
    using alloc_match_post [OF inv 4(3,2,4,5) n1] by blast
  moreover have "bs \<noteq> []" using 4(2) by auto
  then have "a_p s \<noteq> 0"
    using blk_okD(1) freelist_invD(1,6) [OF inv] by blast
  moreover have "\<not> (\<forall>b\<in>set bs. nunits (mem s) b < units_needed nbytes)"
    using 4(3,5) by (auto simp: not_less)
  ultimately show ?thesis
    using 4(1,7) by (intro block [of "fst (alloc_match s (units_needed nbytes) prv cur)"
          "snd (alloc_match s (units_needed nbytes) prv cur)" bs']) simp_all
qed

lemma alloc_null_iff_lemma:
  assumes "freelist_inv s bs"
  shows "\<exists>s' r. allocator_alloc s nbytes = Some (s', r)
     \<and> (r = 0 \<longleftrightarrow> size_invalid nbytes \<or> a_p s = 0
           \<or> (\<forall>b\<in>set bs. nunits (mem s) b < units_needed nbytes))
     \<and> (r = 0 \<longrightarrow> s' = s)"
proof (cases rule: alloc_result [OF assms, of nbytes])
  case 1
  then show ?thesis by simp
next
  case (2 s' r bs')
  then have "r \<noteq> 0" by (simp add: alloc_post_def)
  with 2 show ?thesis by simp
qed

lemma allocsz_unat:
  assumes v: "\<not> size_invalid n" and h: "nunits m (r - UNITSZ) = units_needed n" and r: "r \<noteq> 0"
  shows "unat (allocator_allocsz m r) = 16 * ((unat n + 15) div 16)"
proof -
  let ?q = "(unat n + 15) div 16"
  have u: "unat (units_needed n) = ?q + 1"
    by (rule units_needed_unat [OF v])
  have "(1::64 word) \<le> units_needed n"
    using u by (simp add: word_le_nat_alt)
  then have 1: "unat (units_needed n - 1) = ?q"
    using unat_sub [of 1 "units_needed n"] u by simp
  have "unat n + (16 - unat n mod 16) mod 16 < 2 ^ 64"
    using v by (simp add: size_invalid_iff)
  moreover have "16 * ?q \<le> unat n + (16 - unat n mod 16) mod 16"
    using div_times_less_eq_dividend [of "unat n + (16 - unat n mod 16) mod 16" 16]
    by (simp add: round_up16 mult.commute)
  ultimately have "unat (units_needed n - 1) * unat (16::64 word) < 2 ^ LENGTH(64)"
    using 1 by simp
  then have "unat ((units_needed n - 1) * 16) = unat (units_needed n - 1) * 16"
    using unat_mult_lem [of "units_needed n - 1" 16] by simp
  with 1 show ?thesis
    using h r by (simp add: allocator_allocsz_def UNITSZ_def)
qed

lemma allocsz_bounds_lemma:
  assumes "freelist_inv s bs" "allocator_alloc s n = Some (s', r)" "r \<noteq> 0"
  shows "unat n \<le> unat (allocator_allocsz (mem s') r)
     \<and> unat (allocator_allocsz (mem s') r) < unat n + 2 * unat UNITSZ"
proof (cases rule: alloc_result [OF assms(1), of n])
  case 1
  with assms show ?thesis by simp
next
  case (2 s'' r'' bs')
  with assms have "nunits (mem s') (r - UNITSZ) = units_needed n"
    by (simp add: alloc_post_def)
  from allocsz_unat [OF 2(3) this assms(3)]
  have a: "unat (allocator_allocsz (mem s') r) = 16 * ((unat n + 15) div 16)" .
  have "16 * ((unat n + 15) div 16) + (unat n + 15) mod 16 = unat n + 15"
    by simp
  moreover have "(unat n + 15) mod 16 < 16"
    by simp
  ultimately show ?thesis
    unfolding a by (simp add: UNITSZ_def) linarith
qed

section \<open>Claims about allocation\<close>

lemma seeded_example_inv: "freelist_inv seeded_example [4096]"
  by (simp add: freelist_inv_def seeded_example_def nxt_def blk_ok_def blk_end_def nunits_def
      separated_def)

lemma live_example_inv: "freelist_inv live_example [4096]"
  by (simp add: freelist_inv_def live_example_def nxt_def blk_ok_def blk_end_def nunits_def
      separated_def)

lemma size_16_valid: "\<not> size_invalid 16" "units_needed 16 = 2"
  by (simp_all add: size_invalid_def units_needed_def aln_offset_def UNITSZ_def SIZE_MAX_def)

text \<open>
  C4.  When the first block in walk order that has at least the needed units has
  strictly more, \<open>allocator_alloc\<close> splits it from the high-address end: the block's
  \<open>nunits\<close> is reduced in place by the needed count, a header with \<open>nunits = need\<close>
  is written at the tail, which starts right after the reduced block and ends where the
  block ended, the tail's payload is returned, and every block of the free list keeps
  its \<open>nxt\<close>; the free list remains well-formed with the same blocks.
\<close>

theorem alloc_split_from_tail:
  assumes "freelist_inv s bs" "\<not> size_invalid nbytes"
    "find (\<lambda>w. units_needed nbytes \<le> nunits (mem s) w) (walk_order (a_p s) bs) = Some cur"
    "units_needed nbytes < nunits (mem s) cur"
  shows "\<exists>prv s'. prv \<in> set bs \<and> nxt (mem s) prv = cur
     \<and> allocator_alloc s nbytes
         = Some (s', ptr_add (tail_of (mem s) cur (units_needed nbytes)) 1)
     \<and> s' = \<lparr>a_p = prv, mem = (mem s)(cur := nunits (mem s) cur - units_needed nbytes,
                  tail_of (mem s) cur (units_needed nbytes) := units_needed nbytes)\<rparr>
     \<and> nunits (mem s') cur = nunits (mem s) cur - units_needed nbytes
     \<and> nunits (mem s') (tail_of (mem s) cur (units_needed nbytes)) = units_needed nbytes
     \<and> unat (tail_of (mem s) cur (units_needed nbytes)) = blk_end (mem s') cur
     \<and> blk_end (mem s') (tail_of (mem s) cur (units_needed nbytes)) = blk_end (mem s) cur
     \<and> list_all (\<lambda>b. nxt (mem s') b = nxt (mem s) b) bs
     \<and> freelist_inv s' bs"
proof (cases rule: alloc_cases [OF assms(1), of nbytes])
  case 1
  with assms(2) show ?thesis by simp
next
  case 2
  with assms(3) show ?thesis by (simp add: walk_order_def)
next
  case 3
  note D = freelist_invD [OF assms(1) 3(2)]
  have "set (walk_order (a_p s) bs) = set bs"
    by (rule walk_order_props(4) [OF D(2,5,1)])
  with 3(3) have "find (\<lambda>w. units_needed nbytes \<le> nunits (mem s) w) (walk_order (a_p s) bs) = None"
    by (auto simp: find_None_iff not_le)
  with assms(3) show ?thesis by simp
next
  case (4 prv cur')
  let ?n = "units_needed nbytes"
  let ?tail = "tail_of (mem s) cur ?n"
  let ?s' = "\<lparr>a_p = prv, mem = (mem s)(cur := nunits (mem s) cur - ?n, ?tail := ?n)\<rparr>"
  from 4(6) assms(3) have c: "cur' = cur" by simp
  have n1: "1 \<le> unat ?n"
    using units_needed_ge2 [OF assms(2)] by simp
  have cur: "cur \<in> set bs" using 4(3) c by simp
  have ne: "bs \<noteq> []" using cur by auto
  note D = freelist_invD [OF assms(1) ne]
  note M = alloc_match_split [OF assms(1) cur 4(2) assms(4) n1, folded tail_of_def]
  note S = split_facts [OF D(6) [OF cur] assms(4) n1, folded tail_of_def]
  have post: "alloc_post s bs ?n ?s' (ptr_add ?tail 1) bs"
    by (rule M(2))
  then have inv': "freelist_inv ?s' bs"
    by (simp add: alloc_post_def)
  have nt: "nunits (mem ?s') ?tail = ?n"
    using post by (simp add: alloc_post_def ptr_add_1)
  have 1: "allocator_alloc s nbytes = Some (?s', ptr_add ?tail 1)"
    using 4(7) M(1) c by simp
  have 2: "unat ?tail = blk_end (mem ?s') cur"
    using M(4) S(3) by (simp add: blk_end_def)
  have 3: "blk_end (mem ?s') ?tail = blk_end (mem s) cur"
    using nt S(4) by (simp add: blk_end_def)
  have 5: "list_all (\<lambda>b. nxt (mem ?s') b = nxt (mem s) b) bs"
    unfolding list_all_iff using M(3) by blast
  show ?thesis
    using 4(2,4) c 1 2 3 5 inv' nt M(4) by blast
qed

text \<open>
  The witness: seeding 10 units at 4096 and allocating \<open>UNITSZ\<close> bytes returns the
  payload at 4240, in the high-address half of the region, and leaves the low 8 units
  free.
\<close>

theorem alloc_split_from_tail_witness:
  "freelist_inv seeded_example [4096] \<and> \<not> size_invalid 16
   \<and> find (\<lambda>w. units_needed 16 \<le> nunits (mem seeded_example) w)
        (walk_order (a_p seeded_example) [4096]) = Some 4096
   \<and> units_needed 16 < nunits (mem seeded_example) 4096
   \<and> allocator_alloc seeded_example 16 = Some (live_example, 4240)
   \<and> (4096 + 80 :: addr) \<le> 4240 \<and> (4240 :: addr) < 4096 + 160
   \<and> nunits (mem live_example) 4096 = 8 \<and> freelist_inv live_example [4096]"
proof -
  have h: "freelist_inv seeded_example [4096]" "\<not> size_invalid 16"
    "find (\<lambda>w. units_needed 16 \<le> nunits (mem seeded_example) w)
        (walk_order (a_p seeded_example) [4096]) = Some 4096"
    "units_needed 16 < nunits (mem seeded_example) 4096"
    by (rule seeded_example_inv, rule size_16_valid)
      (simp_all add: size_16_valid walk_order_def seeded_example_def nunits_def)
  have t: "tail_of (mem seeded_example) 4096 (units_needed 16) = 4224"
    by (simp add: tail_of_def size_16_valid seeded_example_def nunits_def ptr_add_def UNITSZ_def)
  from alloc_split_from_tail [OF h]
  have "allocator_alloc seeded_example 16 = Some (live_example, 4240)"
    unfolding t
    by (auto simp: size_16_valid seeded_example_def live_example_def nunits_def ptr_add_def
        UNITSZ_def)
  with h show ?thesis
    by (simp add: live_example_inv) (simp add: live_example_def nunits_def)
qed

text \<open>
  C6.  For every \<open>n\<close> for which \<open>alloc(n)\<close> on a well-formed free list succeeds,
  \<open>allocsz\<close> of the returned pointer is at least \<open>n\<close> and strictly less than
  \<open>n + 2 * UNITSZ\<close> (both read as unbounded numbers).
\<close>

theorem allocsz_bounds:
  assumes "freelist_inv s bs" "allocator_alloc s n = Some (s', r)" "r \<noteq> 0"
  shows "unat n \<le> unat (allocator_allocsz (mem s') r)
     \<and> unat (allocator_allocsz (mem s') r) < unat n + 2 * unat UNITSZ"
  using assms by (rule allocsz_bounds_lemma)

theorem allocsz_bounds_witness:
  "freelist_inv seeded_example [4096]
   \<and> allocator_alloc seeded_example 5 = Some (live_example, 4240) \<and> (4240 :: addr) \<noteq> 0
   \<and> allocator_allocsz (mem live_example) 4240 = 16
   \<and> unat (5 :: size_t) \<le> unat (allocator_allocsz (mem live_example) 4240)
   \<and> unat (allocator_allocsz (mem live_example) 4240) < unat (5 :: size_t) + 2 * unat UNITSZ"
proof -
  have a: "allocator_alloc seeded_example 5 = Some (live_example, 4240)"
    by (simp add: allocator_alloc_def alloc_match_def aln_offset_def UNITSZ_def SIZE_MAX_def
        nxt_def nunits_def set_nunits_def ptr_add_def Let_def alloc_loop.simps
        seeded_example_def live_example_def)
  have z: "allocator_allocsz (mem live_example) 4240 = 16"
    by (simp add: allocator_allocsz_def live_example_def nunits_def UNITSZ_def)
  from allocsz_bounds [OF seeded_example_inv a] a z show ?thesis
    by (simp add: seeded_example_inv)
qed

text \<open>
  C9.  On a well-formed free list \<open>allocator_alloc\<close> returns, and it returns null
  exactly when the size is zero or its rounding overflows, or the free list is empty,
  or no free block has the units needed; whenever it returns null, and so in the
  invalid-size cases, the state is unchanged.
\<close>

theorem alloc_null_iff:
  assumes "freelist_inv s bs"
  shows "\<exists>s' r. allocator_alloc s nbytes = Some (s', r)
     \<and> (r = 0 \<longleftrightarrow> size_invalid nbytes \<or> a_p s = 0
           \<or> (\<forall>b\<in>set bs. nunits (mem s) b < units_needed nbytes))
     \<and> (r = 0 \<longrightarrow> s' = s) \<and> (size_invalid nbytes \<longrightarrow> s' = s)"
  using alloc_null_iff_lemma [OF assms, of nbytes] by blast

theorem alloc_null_iff_witness:
  "freelist_inv live_example [4096]
   \<and> allocator_alloc live_example (8 * UNITSZ) = Some (live_example, 0)
   \<and> \<not> size_invalid (8 * UNITSZ) \<and> a_p live_example \<noteq> 0
   \<and> nunits (mem live_example) 4096 < units_needed (8 * UNITSZ)
   \<and> allocator_alloc live_example 0 = Some (live_example, 0) \<and> size_invalid 0"
proof -
  have v: "\<not> size_invalid (8 * UNITSZ)" "units_needed (8 * UNITSZ) = 9" "size_invalid 0"
    by (simp_all add: size_invalid_def units_needed_def aln_offset_def UNITSZ_def SIZE_MAX_def)
  have n: "nunits (mem live_example) 4096 = 8" "a_p live_example \<noteq> 0"
    by (simp_all add: live_example_def nunits_def)
  from alloc_null_iff [OF live_example_inv, of "8 * UNITSZ"] v n
  have 1: "allocator_alloc live_example (8 * UNITSZ) = Some (live_example, 0)"
    by auto
  from alloc_null_iff [OF live_example_inv, of 0] v
  have 2: "allocator_alloc live_example 0 = Some (live_example, 0)"
    by auto
  from 1 2 v n show ?thesis
    by (simp add: live_example_inv)
qed

section \<open>Evaluating the operations on a region at a symbolic base address\<close>

lemma off_unat: "region_ok b n \<Longrightarrow> unat x \<le> n \<Longrightarrow> unat (b + x) = unat b + unat x"
  by (simp add: region_ok_def unat_add_lem [THEN iffD1])

lemma off_less:
  "region_ok b n \<Longrightarrow> unat x \<le> n \<Longrightarrow> unat y \<le> n \<Longrightarrow> (b + x < b + y) = (x < y)"
  by (simp add: word_less_nat_alt off_unat)

lemma off_le:
  "region_ok b n \<Longrightarrow> unat x \<le> n \<Longrightarrow> unat y \<le> n \<Longrightarrow> (b + x \<le> b + y) = (x \<le> y)"
  by (simp add: word_le_nat_alt off_unat)

lemma off_less0: "region_ok b n \<Longrightarrow> unat y \<le> n \<Longrightarrow> (b < b + y) = (0 < y)"
  using off_less [of b n 0 y] by simp

lemma off_less0': "region_ok b n \<Longrightarrow> unat y \<le> n \<Longrightarrow> (b + y < b) = False"
  using off_less [of b n y 0] by simp

lemma off_le0: "region_ok b n \<Longrightarrow> unat y \<le> n \<Longrightarrow> (b \<le> b + y) = True"
  using off_le [of b n 0 y] by simp

lemma off_le0': "region_ok b n \<Longrightarrow> unat y \<le> n \<Longrightarrow> (b + y \<le> b) = (y = 0)"
  using off_le [of b n y 0] by simp

lemma off_ne0: "region_ok b n \<Longrightarrow> unat y \<le> n \<Longrightarrow> (b + y = 0) = False"
  using off_unat [of b n y] by (auto simp: unat_eq_0 region_ok_def)

lemma off_mod8: "region_ok b n \<Longrightarrow> b mod 8 = 0"
  by (simp add: region_ok_def word_eq_iff_unsigned [where ?'a = nat] unat_mod)

lemma off_nz: "region_ok b n \<Longrightarrow> (b = 0) = False"
  by (simp add: region_ok_def)

lemmas offs = off_less off_le off_less0 off_less0' off_le0 off_le0' off_ne0 off_mod8 off_nz

lemmas op_defs = allocator_add_def allocator_alloc_def allocator_free_def allocator_allocsz_def
  allocator_realloc_def alloc_match_def free_link_def ALLOCATOR_INIT_def aln_offset_def
  ALIGNOF_SIZE_T_def UNITSZ_def SIZE_MAX_def nxt_def nunits_def set_nunits_def set_nxt_def
  ptr_add_def Let_def

lemmas eval_simps = op_defs offs alloc_loop.simps free_walk.simps add.assoc
  word_le_nat_alt [of 2 1]

lemma free_nonempty:
  assumes "ptr \<noteq> 0" "ptr - UNITSZ = h" "a_p s \<noteq> 0"
    "free_walk (mem s) h (a_p s) = Some cur" "free_link (mem s) h cur = m'"
  shows "allocator_free s ptr = Some \<lparr>a_p = cur, mem = m'\<rparr>"
  using assms by (simp add: allocator_free_def)

lemma free_empty:
  assumes "ptr \<noteq> 0" "ptr - UNITSZ = h" "a_p s = 0" "set_nxt (mem s) h h = m'"
  shows "allocator_free s ptr = Some \<lparr>a_p = h, mem = m'\<rparr>"
  using assms by (simp add: allocator_free_def)

subsection \<open>Seed, exhaust, refill\<close>

lemma seed_exhaust_refill_eval:
  assumes "region_ok base 160"
  shows "seed_exhaust_refill m base = Some (5, base, base, 10)"
proof -
  note D = eval_simps
  let ?m0 = "m(base := 10, base + 8 := base)"
  let ?m1 = "?m0(base := 8, base + 128 := 2)"
  let ?m2 = "?m1(base := 6, base + 96 := 2)"
  let ?m3 = "?m2(base := 4, base + 64 := 2)"
  let ?m4 = "?m3(base := 2, base + 32 := 2)"
  let ?m5 = "?m4(base + 8 := base)"
  let ?m6 = "?m5(base + 40 := base, base := 4, base + 8 := base)"
  let ?m7 = "?m6(base + 72 := base, base := 6, base + 8 := base)"
  let ?m8 = "?m7(base + 104 := base, base := 8, base + 8 := base)"
  let ?m9 = "?m8(base + 136 := base, base := 10, base + 8 := base)"
  have s0: "allocator_add (ALLOCATOR_INIT m) base (10 * UNITSZ)
      = Some \<lparr>a_p = base, mem = ?m0\<rparr>"
    using assms by (simp add: D)
  have a1: "allocator_alloc \<lparr>a_p = base, mem = ?m0\<rparr> 1
      = Some (\<lparr>a_p = base, mem = ?m1\<rparr>, base + 144)"
    using assms by (simp add: D)
  have a2: "allocator_alloc \<lparr>a_p = base, mem = ?m1\<rparr> 1
      = Some (\<lparr>a_p = base, mem = ?m2\<rparr>, base + 112)"
    using assms by (simp add: D)
  have a3: "allocator_alloc \<lparr>a_p = base, mem = ?m2\<rparr> 1
      = Some (\<lparr>a_p = base, mem = ?m3\<rparr>, base + 80)"
    using assms by (simp add: D)
  have a4: "allocator_alloc \<lparr>a_p = base, mem = ?m3\<rparr> 1
      = Some (\<lparr>a_p = base, mem = ?m4\<rparr>, base + 48)"
    using assms by (simp add: D)
  have a5: "allocator_alloc \<lparr>a_p = base, mem = ?m4\<rparr> 1
      = Some (\<lparr>a_p = 0, mem = ?m4\<rparr>, base + 16)"
    using assms by (simp add: D)
  have a6: "allocator_alloc \<lparr>a_p = 0, mem = ?m4\<rparr> 1 = Some (\<lparr>a_p = 0, mem = ?m4\<rparr>, 0)"
    using assms by (simp add: D)
  have f1: "allocator_free \<lparr>a_p = 0, mem = ?m4\<rparr> (base + 16)
      = Some \<lparr>a_p = base, mem = ?m5\<rparr>"
    using assms by (rule_tac h = base in free_empty) (simp_all add: D)
  have f2: "allocator_free \<lparr>a_p = base, mem = ?m5\<rparr> (base + 48)
      = Some \<lparr>a_p = base, mem = ?m6\<rparr>"
    using assms by (rule_tac h = "base + 32" in free_nonempty) (simp_all add: D)
  have f3: "allocator_free \<lparr>a_p = base, mem = ?m6\<rparr> (base + 80)
      = Some \<lparr>a_p = base, mem = ?m7\<rparr>"
    using assms by (rule_tac h = "base + 64" in free_nonempty) (simp_all add: D)
  have f4: "allocator_free \<lparr>a_p = base, mem = ?m7\<rparr> (base + 112)
      = Some \<lparr>a_p = base, mem = ?m8\<rparr>"
    using assms by (rule_tac h = "base + 96" in free_nonempty) (simp_all add: D)
  have f5: "allocator_free \<lparr>a_p = base, mem = ?m8\<rparr> (base + 144)
      = Some \<lparr>a_p = base, mem = ?m9\<rparr>"
    using assms by (rule_tac h = "base + 128" in free_nonempty) (simp_all add: D)
  have nz: "(base + 16 = 0) = False" "(base + 48 = 0) = False" "(base + 80 = 0) = False"
    "(base + 112 = 0) = False" "(base + 144 = 0) = False"
    using assms by (simp_all add: offs)
  have u6: "alloc_until_null \<lparr>a_p = 0, mem = ?m4\<rparr> 1 ps
      = Some (\<lparr>a_p = 0, mem = ?m4\<rparr>, ps)" for ps
    by (subst alloc_until_null.simps) (simp only: a6 option.case prod.case if_True simp_thms)
  have u5: "alloc_until_null \<lparr>a_p = base, mem = ?m4\<rparr> 1 ps
      = Some (\<lparr>a_p = 0, mem = ?m4\<rparr>, (base + 16) # ps)" for ps
    by (subst alloc_until_null.simps) (simp only: a5 u6 nz option.case prod.case if_False)
  have u4: "alloc_until_null \<lparr>a_p = base, mem = ?m3\<rparr> 1 ps
      = Some (\<lparr>a_p = 0, mem = ?m4\<rparr>, (base + 16) # (base + 48) # ps)" for ps
    by (subst alloc_until_null.simps) (simp only: a4 u5 nz option.case prod.case if_False)
  have u3: "alloc_until_null \<lparr>a_p = base, mem = ?m2\<rparr> 1 ps
      = Some (\<lparr>a_p = 0, mem = ?m4\<rparr>, (base + 16) # (base + 48) # (base + 80) # ps)" for ps
    by (subst alloc_until_null.simps) (simp only: a3 u4 nz option.case prod.case if_False)
  have u2: "alloc_until_null \<lparr>a_p = base, mem = ?m1\<rparr> 1 ps
      = Some (\<lparr>a_p = 0, mem = ?m4\<rparr>,
          (base + 16) # (base + 48) # (base + 80) # (base + 112) # ps)" for ps
    by (subst alloc_until_null.simps) (simp only: a2 u3 nz option.case prod.case if_False)
  have u1: "alloc_until_null \<lparr>a_p = base, mem = ?m0\<rparr> 1 []
      = Some (\<lparr>a_p = 0, mem = ?m4\<rparr>,
          [base + 16, base + 48, base + 80, base + 112, base + 144])"
    by (subst alloc_until_null.simps) (simp only: a1 u2 nz option.case prod.case if_False)
  have fr: "free_all \<lparr>a_p = 0, mem = ?m4\<rparr>
        [base + 16, base + 48, base + 80, base + 112, base + 144]
      = Some \<lparr>a_p = base, mem = ?m9\<rparr>"
    by (simp only: free_all.simps f1 f2 f3 f4 f5 option.case)
  have "seed_exhaust_refill m base = Some (5, base, nxt ?m9 base, nunits ?m9 base)"
    unfolding seed_exhaust_refill_def
    by (simp only: s0 u1 fr Option.bind.bind_lunit prod.case allocator.select_convs
          list.size length_Cons) simp
  then show ?thesis
    by (simp add: nxt_def nunits_def)
qed

text \<open>
  C1 (as amended).  A fresh allocator seeded with one aligned region of exactly 10
  units: \<open>alloc(1)\<close> takes two units each time (the payload rounded up to one unit,
  plus the header), so calling it until it returns null yields exactly 5 successful
  allocations; after freeing them in reverse order the free list is one block at the
  region's base that points to itself and has 10 units.
\<close>

theorem seed_exhaust_refill_five:
  "region_ok base 160 \<Longrightarrow> seed_exhaust_refill m base = Some (5, base, base, 10)"
  by (rule seed_exhaust_refill_eval)

theorem seed_exhaust_refill_five_witness:
  "region_ok 4096 160 \<and> seed_exhaust_refill (\<lambda>_. 0) 4096 = Some (5, 4096, 4096, 10)"
  using seed_exhaust_refill_five [of 4096 "\<lambda>_. 0"] by (simp add: region_ok_def)

text \<open>The count the claim states, 9, is not what the code yields.\<close>

theorem seed_exhaust_refill_not_nine:
  "map_option fst (seed_exhaust_refill (\<lambda>_. 0) 4096) \<noteq> Some 9"
  using seed_exhaust_refill_eval [of 4096 "\<lambda>_. 0"] by (simp add: region_ok_def)

subsection \<open>Coalescing on both sides\<close>

lemma coalesce_both_sides_eval:
  assumes "region_ok base 80"
  shows "coalesce_both_sides m base = Some (base + 64, base + 32, 0,
     \<lparr>a_p = base, mem = m(base := 5, base + 8 := base, base := 3, base + 48 := 2,
        base := 1, base + 16 := 2, base + 56 := base, base + 8 := base + 48,
        base + 16 := 4, base + 24 := base, base := 5, base + 8 := base)\<rparr>)"
proof -
  note D = eval_simps
  let ?m0 = "m(base := 5, base + 8 := base)"
  let ?m1 = "?m0(base := 3, base + 48 := 2)"
  let ?m2 = "?m1(base := 1, base + 16 := 2)"
  let ?m3 = "?m2(base + 56 := base, base + 8 := base + 48)"
  let ?m4 = "?m3(base + 16 := 4, base + 24 := base, base := 5, base + 8 := base)"
  have s0: "allocator_add (ALLOCATOR_INIT m) base (5 * UNITSZ)
      = Some \<lparr>a_p = base, mem = ?m0\<rparr>"
    using assms by (simp add: D)
  have a1: "allocator_alloc \<lparr>a_p = base, mem = ?m0\<rparr> UNITSZ
      = Some (\<lparr>a_p = base, mem = ?m1\<rparr>, base + 64)"
    using assms by (simp add: D)
  have a2: "allocator_alloc \<lparr>a_p = base, mem = ?m1\<rparr> UNITSZ
      = Some (\<lparr>a_p = base, mem = ?m2\<rparr>, base + 32)"
    using assms by (simp add: D)
  have a3: "allocator_alloc \<lparr>a_p = base, mem = ?m2\<rparr> UNITSZ
      = Some (\<lparr>a_p = base, mem = ?m2\<rparr>, 0)"
    using assms by (simp add: D)
  have f1: "allocator_free \<lparr>a_p = base, mem = ?m2\<rparr> (base + 64)
      = Some \<lparr>a_p = base, mem = ?m3\<rparr>"
    using assms by (rule_tac h = "base + 48" in free_nonempty) (simp_all add: D)
  have f2: "allocator_free \<lparr>a_p = base, mem = ?m3\<rparr> 0 = Some \<lparr>a_p = base, mem = ?m3\<rparr>"
    by (simp add: allocator_free_def)
  have f3: "allocator_free \<lparr>a_p = base, mem = ?m3\<rparr> (base + 32)
      = Some \<lparr>a_p = base, mem = ?m4\<rparr>"
    using assms by (rule_tac h = "base + 16" in free_nonempty) (simp_all add: D)
  show ?thesis
    unfolding coalesce_both_sides_def
    by (simp only: s0 a1 a2 a3 f1 f2 f3 Option.bind.bind_lunit prod.case)
qed

text \<open>
  C5.  A fresh allocator seeded with a 5-unit region, then \<open>a = alloc(UNITSZ)\<close>,
  \<open>b = alloc(UNITSZ)\<close>, \<open>c = alloc(UNITSZ)\<close>, \<open>free(a)\<close>, \<open>free(c)\<close>, \<open>free(b)\<close>:
  the free list ends as one block at the region's base that points to itself and has
  all 5 units.  (The third allocation finds only one unit left and returns null, so
  \<open>free(c)\<close> does nothing; \<open>free(b)\<close> merges with the free block below it and with
  \<open>a\<close>'s block above it.)
\<close>

theorem coalesce_both_sides_singleton:
  "region_ok base 80 \<Longrightarrow>
   map_option (\<lambda>(a, b, c, s). (a_p s, nxt (mem s) (a_p s), nunits (mem s) (a_p s)))
     (coalesce_both_sides m base) = Some (base, base, 5)"
  by (simp add: coalesce_both_sides_eval nxt_def nunits_def)

theorem coalesce_both_sides_singleton_witness:
  "region_ok 4096 80 \<and>
   map_option (\<lambda>(a, b, c, s). (a_p s, nxt (mem s) (a_p s), nunits (mem s) (a_p s)))
     (coalesce_both_sides (\<lambda>_. 0) 4096) = Some (4096, 4096, 5)"
  using coalesce_both_sides_singleton [of 4096 "\<lambda>_. 0"] by (simp add: region_ok_def)

subsection \<open>Freeing the block right below a one-block free list\<close>

lemma free_below_singleton_eval:
  assumes "region_ok base 160"
  shows "free_below_singleton m base = Some
     \<lparr>a_p = base + 128, mem = m(base := 10, base + 8 := base, base := 8, base + 128 := 2,
        base := 6, base + 96 := 2, base + 136 := base + 128,
        base + 96 := 4, base + 104 := base + 128, base + 136 := base + 96)\<rparr>"
proof -
  note D = eval_simps
  let ?m0 = "m(base := 10, base + 8 := base)"
  let ?m1 = "?m0(base := 8, base + 128 := 2)"
  let ?m2 = "?m1(base := 6, base + 96 := 2)"
  let ?m3 = "?m2(base + 136 := base + 128)"
  let ?m4 = "?m3(base + 96 := 4, base + 104 := base + 128, base + 136 := base + 96)"
  have s0: "allocator_add (ALLOCATOR_INIT m) base (10 * UNITSZ)
      = Some \<lparr>a_p = base, mem = ?m0\<rparr>"
    using assms by (simp add: D)
  have a1: "allocator_alloc \<lparr>a_p = base, mem = ?m0\<rparr> UNITSZ
      = Some (\<lparr>a_p = base, mem = ?m1\<rparr>, base + 144)"
    using assms by (simp add: D)
  have a2: "allocator_alloc \<lparr>a_p = base, mem = ?m1\<rparr> UNITSZ
      = Some (\<lparr>a_p = base, mem = ?m2\<rparr>, base + 112)"
    using assms by (simp add: D)
  have a3: "allocator_alloc \<lparr>a_p = base, mem = ?m2\<rparr> (5 * UNITSZ)
      = Some (\<lparr>a_p = 0, mem = ?m2\<rparr>, base + 16)"
    using assms by (simp add: D)
  have f1: "allocator_free \<lparr>a_p = 0, mem = ?m2\<rparr> (base + 144)
      = Some \<lparr>a_p = base + 128, mem = ?m3\<rparr>"
    using assms by (rule_tac h = "base + 128" in free_empty) (simp_all add: D)
  have f2: "allocator_free \<lparr>a_p = base + 128, mem = ?m3\<rparr> (base + 112)
      = Some \<lparr>a_p = base + 128, mem = ?m4\<rparr>"
    using assms by (rule_tac h = "base + 96" in free_nonempty) (simp_all add: D)
  show ?thesis
    unfolding free_below_singleton_def
    by (simp only: s0 a1 a2 a3 f1 f2 Option.bind.bind_lunit prod.case)
qed

lemma alloc3_after_free_below_singleton:
  assumes "region_ok base 160" "free_below_singleton m base = Some s"
  shows "alloc3 s UNITSZ = Some (base + 144, base + 112, base + 144)"
proof -
  note D = eval_simps
  let ?m4 = "m(base := 10, base + 8 := base, base := 8, base + 128 := 2,
        base := 6, base + 96 := 2, base + 136 := base + 128,
        base + 96 := 4, base + 104 := base + 128, base + 136 := base + 96)"
  let ?m5 = "?m4(base + 96 := 2, base + 128 := 2)"
  let ?m6 = "?m5(base + 136 := base + 128)"
  have s: "s = \<lparr>a_p = base + 128, mem = ?m4\<rparr>"
    using assms free_below_singleton_eval [of base m] by simp
  have a1: "allocator_alloc \<lparr>a_p = base + 128, mem = ?m4\<rparr> UNITSZ
      = Some (\<lparr>a_p = base + 128, mem = ?m5\<rparr>, base + 144)"
    using assms(1) by (simp add: D)
  have a2: "allocator_alloc \<lparr>a_p = base + 128, mem = ?m5\<rparr> UNITSZ
      = Some (\<lparr>a_p = base + 128, mem = ?m6\<rparr>, base + 112)"
    using assms(1) by (simp add: D)
  have a3: "allocator_alloc \<lparr>a_p = base + 128, mem = ?m6\<rparr> UNITSZ
      = Some (\<lparr>a_p = 0, mem = ?m6\<rparr>, base + 144)"
    using assms(1) by (simp add: D)
  show ?thesis
    unfolding alloc3_def s
    by (simp only: a1 a2 a3 Option.bind.bind_lunit prod.case)
qed

section \<open>Reallocation in place\<close>

lemma live_example_reached:
  "Option.bind (allocator_add (ALLOCATOR_INIT (\<lambda>_. 0)) 4096 (10 * UNITSZ))
     (\<lambda>s. allocator_alloc s UNITSZ) = Some (live_example, 4240)"
proof -
  have r: "region_ok 4096 160"
    by (simp add: region_ok_def)
  have s0: "allocator_add (ALLOCATOR_INIT (\<lambda>_. 0)) 4096 (10 * UNITSZ)
      = Some \<lparr>a_p = 4096, mem = (\<lambda>_. 0)(4096 := 10, 4104 := 4096)\<rparr>"
    by (simp add: op_defs)
  have a1: "allocator_alloc \<lparr>a_p = 4096, mem = (\<lambda>_. 0)(4096 := 10, 4104 := 4096)\<rparr> UNITSZ
      = Some (live_example, 4240)"
    by (simp add: op_defs alloc_loop.simps live_example_def)
  show ?thesis
    by (simp only: s0 a1 Option.bind.bind_lunit)
qed

lemma realloc_in_place:
  assumes "p \<noteq> 0" "n \<noteq> 0" "n \<le> allocator_allocsz (mem s) p"
  shows "allocator_realloc s p n = Some (s, p)"
  using assms by (simp add: allocator_realloc_def not_less [symmetric])

text \<open>
  C7 (as amended).  For every non-null \<open>p\<close> and every size \<open>n > 0\<close> with
  \<open>allocsz(p) \<ge> n\<close>, \<open>realloc(p, n)\<close> returns \<open>p\<close> itself.
\<close>

theorem realloc_no_shrink:
  "p \<noteq> 0 \<Longrightarrow> n \<noteq> 0 \<Longrightarrow> n \<le> allocator_allocsz (mem s) p \<Longrightarrow>
   map_option snd (allocator_realloc s p n) = Some p"
  by (simp add: realloc_in_place)

theorem realloc_no_shrink_witness:
  "(4240 :: addr) \<noteq> 0 \<and> (16 :: size_t) \<noteq> 0
   \<and> 16 \<le> allocator_allocsz (mem live_example) 4240
   \<and> map_option snd (allocator_realloc live_example 4240 16) = Some 4240"
  using realloc_no_shrink [of 4240 16 live_example]
  by (simp add: live_example_def allocator_allocsz_def nunits_def UNITSZ_def)

text \<open>
  With \<open>n = 0\<close> the claim's condition \<open>allocsz(p) \<ge> n\<close> holds for every \<open>p\<close>, but
  \<open>realloc(p, 0)\<close> frees \<open>p\<close> and returns null.
\<close>

theorem realloc_zero_returns_null:
  "0 \<le> allocator_allocsz (mem live_example) 4240
   \<and> map_option snd (allocator_realloc live_example 4240 0) = Some 0"
proof -
  have "free_walk (mem live_example) 4224 4096 = Some 4096"
    by (simp add: free_walk.simps live_example_def nxt_def)
  then show ?thesis
    by (simp add: allocator_realloc_def allocator_free_def UNITSZ_def live_example_def)
qed

text \<open>
  C10.  For every non-null \<open>p\<close> and every \<open>n\<close> with \<open>0 < n \<le> allocsz(p)\<close>,
  \<open>realloc(a, p, n)\<close> leaves the allocator's state as it is: the cursor and the
  whole memory, hence the free list, are unchanged.
\<close>

theorem realloc_in_place_frame:
  "p \<noteq> 0 \<Longrightarrow> 0 < n \<Longrightarrow> n \<le> allocator_allocsz (mem s) p \<Longrightarrow>
   map_option fst (allocator_realloc s p n) = Some s"
  by (simp add: realloc_in_place word_neq_0_conv)

theorem realloc_in_place_frame_witness:
  "(4240 :: addr) \<noteq> 0 \<and> (0 :: size_t) < 9
   \<and> 9 \<le> allocator_allocsz (mem live_example) 4240
   \<and> map_option fst (allocator_realloc live_example 4240 9) = Some live_example"
  using realloc_in_place_frame [of 4240 9 live_example]
  by (simp add: live_example_def allocator_allocsz_def nunits_def UNITSZ_def)

end
